theory Spec2Isabelle
  imports Main "HOL-Library.Word"
begin

section \<open>Values shared by the packages\<close>

text \<open>
  A \<^verbatim>\<open>context.Context\<close> is represented by its identity, a Go \<^verbatim>\<open>error\<close> (non-nil) by
  its message. \<^verbatim>\<open>conduit.Result[T]\<close> is the tagged outcome that travels through the
  channels: \<^verbatim>\<open>conduit.Ok(ctx, v)\<close> builds a success.
\<close>

type_synonym Context = nat
type_synonym error = string

datatype 'a Result = Ok Context 'a | Err Context error

section \<open>Package chord: stages and the driver\<close>

text \<open>
  What a reader has seen on a channel when a production run is over: the outcomes sent,
  in order, and whether the channel was closed after them (a run whose worker blocks
  forever leaves its channel open).
\<close>

record 'a Chan =
  sent :: "'a Result list"
  is_closed :: bool

text \<open>
  \<^verbatim>\<open>type Stage[T any] conduit.Stage[T]\<close>, a factory \<^verbatim>\<open>func() <-chan Result[T]\<close>.
  Calling the factory starts worker goroutines: the factory is a function of the number
  of workers started so far and returns the new number with the channel.
\<close>

type_synonym 'a Stage = "nat \<Rightarrow> 'a Chan \<times> nat"

text \<open>
  A transform has the Go type \<^verbatim>\<open>func(context.Context, In) (Out, error)\<close>: it returns
  a value and an error, the error \<^verbatim>\<open>nil\<close> (\<open>None\<close>) on success.
\<close>

type_synonym ('a, 'b) transform = "Context \<Rightarrow> 'a \<Rightarrow> 'b \<times> error option"

text \<open>
  Modelled from the spec: \<^verbatim>\<open>conduit.NewProducerConsumer\<close> belongs to the go-conduit
  module, which is not among the sources. Section 4.2 of the specification gives what
  its worker does with one outcome read from upstream: a failure is forwarded as it is
  and the transform is not called; on a success the transform is called with the carried
  context and value, and its error decides between a failure and a success outcome.
  The second component lists the calls of the transform made for the item.
\<close>

definition relay :: "('a, 'b) transform \<Rightarrow> 'a Result \<Rightarrow> 'b Result \<times> (Context \<times> 'a) list" where
  "relay fn r =
     (case r of
        Err ctx e \<Rightarrow> (Err ctx e, [])
      | Ok ctx v \<Rightarrow>
          (case fn ctx v of
             (y, Some e) \<Rightarrow> (Err ctx e, [(ctx, v)])
           | (y, None) \<Rightarrow> (Ok ctx y, [(ctx, v)])))"

text \<open>
  Modelled from the spec: the worker loop of \<^verbatim>\<open>conduit.NewProducerConsumer\<close> (absent,
  as above). It reads upstream until it is closed and handles the outcomes one at a time.
\<close>

fun worker :: "('a, 'b) transform \<Rightarrow> 'a Result list \<Rightarrow> ('b Result \<times> (Context \<times> 'a) list) list" where
  "worker fn [] = []"
| "worker fn (r # rs) = relay fn r # worker fn rs"

text \<open>
  Modelled from the spec: \<^verbatim>\<open>conduit.NewProducerConsumer\<close> (absent, as above). The stage
  it returns instantiates the upstream run, starts one worker, and closes its channel
  when upstream has closed.
\<close>

definition NewProducerConsumer :: "'a Stage \<Rightarrow> ('a, 'b) transform \<Rightarrow> 'b Stage" where
  "NewProducerConsumer p fn =
     (\<lambda>w. case p w of
        (up, w') \<Rightarrow> (\<lparr>sent = map fst (worker fn (sent up)), is_closed = is_closed up\<rparr>, Suc w'))"

text \<open>
  \<^verbatim>\<open>func NewStage[In, Out any](p Stage[In], fn func(context.Context, In) (Out, error)) Stage[Out] {
      return Stage[Out](conduit.NewProducerConsumer(conduit.Stage[In](p), fn)) }\<close>
\<close>

definition NewStage :: "'a Stage \<Rightarrow> ('a, 'b) transform \<Rightarrow> 'b Stage" where
  "NewStage p fn = NewProducerConsumer p fn"

text \<open>
  The calls of the transform that the worker of \<open>NewStage p fn\<close> makes for the item at
  position \<open>i\<close> of its upstream, when the stage is instantiated at \<open>w\<close>.
\<close>

definition transform_calls :: "'a Stage \<Rightarrow> ('a, 'b) transform \<Rightarrow> nat \<Rightarrow> nat \<Rightarrow> (Context \<times> 'a) list" where
  "transform_calls p fn w i = snd (worker fn (sent (fst (p w))) ! i)"

text \<open>A pipeline as the README builds it: one \<open>NewStage\<close> after the other.\<close>

definition pipeline :: "('a, 'a) transform list \<Rightarrow> 'a Stage \<Rightarrow> 'a Stage" where
  "pipeline fns s = foldl NewStage s fns"

text \<open>
  \<^verbatim>\<open>type Flow[In, Out any] interface { OnSuccess(context.Context, Out) error;
      OnError(context.Context, error); Pipeline(Stage[In]) Stage[Out] }\<close>
  The handlers are called for their effect, on a state \<open>'u\<close> of the user's.
\<close>

record ('a, 'b, 'u) Flow =
  OnSuccess :: "Context \<Rightarrow> 'b \<Rightarrow> 'u \<Rightarrow> error option \<times> 'u"
  OnError :: "Context \<Rightarrow> error \<Rightarrow> 'u \<Rightarrow> 'u"
  Pipeline :: "'a Stage \<Rightarrow> 'b Stage"

datatype 'b HandlerCall = OnSuccessCall Context 'b | OnErrorCall Context error

text \<open>
  Modelled from the spec: the loop of \<^verbatim>\<open>conduit.NewConsumer\<close> (module go-conduit, not
  among the sources). Section 4.4: read one outcome; on a success call the success
  handler, on a failure the error handler; repeat until the channel closes. The error
  a success handler returns is not acted upon (section 4.4: it is not fed back). The
  result is the sequence of handler calls and the user's state after them.
\<close>

fun consumer_loop ::
  "(Context \<Rightarrow> 'b \<Rightarrow> 'u \<Rightarrow> error option \<times> 'u) \<Rightarrow> (Context \<Rightarrow> error \<Rightarrow> 'u \<Rightarrow> 'u) \<Rightarrow>
   'b Result list \<Rightarrow> 'u \<Rightarrow> 'b HandlerCall list \<times> 'u" where
  "consumer_loop onS onE [] u = ([], u)"
| "consumer_loop onS onE (Ok ctx v # rs) u =
     (case consumer_loop onS onE rs (snd (onS ctx v u)) of
        (calls, u') \<Rightarrow> (OnSuccessCall ctx v # calls, u'))"
| "consumer_loop onS onE (Err ctx e # rs) u =
     (case consumer_loop onS onE rs (onE ctx e u) of
        (calls, u') \<Rightarrow> (OnErrorCall ctx e # calls, u'))"

text \<open>
  What a call of the driver amounts to: the handler calls made, the user's state,
  whether the call has returned (the loop ends when the channel closes), and the
  number of workers started.
\<close>

record ('b, 'u) Run =
  calls :: "'b HandlerCall list"
  user :: 'u
  returned :: bool
  workers :: nat

text \<open>
  Modelled from the spec: \<^verbatim>\<open>conduit.NewConsumer\<close> (absent, as above): it instantiates
  the production run of its stage and runs the loop on the calling goroutine.
\<close>

definition NewConsumer ::
  "'b Stage \<Rightarrow> (Context \<Rightarrow> 'b \<Rightarrow> 'u \<Rightarrow> error option \<times> 'u) \<Rightarrow> (Context \<Rightarrow> error \<Rightarrow> 'u \<Rightarrow> 'u) \<Rightarrow>
   nat \<Rightarrow> 'u \<Rightarrow> ('b, 'u) Run" where
  "NewConsumer s onS onE w u =
     (case s w of
        (ch, w') \<Rightarrow>
          (case consumer_loop onS onE (sent ch) u of
             (cs, u') \<Rightarrow> \<lparr>calls = cs, user = u', returned = is_closed ch, workers = w'\<rparr>))"

text \<open>
  \<^verbatim>\<open>func RunFlow[In, Out any](s Stage[In], f Flow[In, Out]) {
      conduit.NewConsumer(conduit.Stage[Out](f.Pipeline(s)), f.OnSuccess, f.OnError) }\<close>
\<close>

definition RunFlow :: "'a Stage \<Rightarrow> ('a, 'b, 'u) Flow \<Rightarrow> nat \<Rightarrow> 'u \<Rightarrow> ('b, 'u) Run" where
  "RunFlow s f w u = NewConsumer (Pipeline f s) (OnSuccess f) (OnError f) w u"

text \<open>The handler call that an outcome leads to.\<close>

definition dispatch :: "'b Result \<Rightarrow> 'b HandlerCall" where
  "dispatch r = (case r of Ok ctx v \<Rightarrow> OnSuccessCall ctx v | Err ctx e \<Rightarrow> OnErrorCall ctx e)"

text \<open>The user's state after the handler for one outcome has run.\<close>

definition handle_outcome :: "('a, 'b, 'u) Flow \<Rightarrow> 'u \<Rightarrow> 'b Result \<Rightarrow> 'u" where
  "handle_outcome f u r =
     (case r of Ok ctx v \<Rightarrow> snd (OnSuccess f ctx v u) | Err ctx e \<Rightarrow> OnError f ctx e u)"

text \<open>An outcome after it has passed the workers of the stages \<open>fns\<close>, first to last.\<close>

definition through :: "('a, 'a) transform list \<Rightarrow> 'a Result \<Rightarrow> 'a Result" where
  "through fns r = foldl (\<lambda>r fn. fst (relay fn r)) r fns"

text \<open>
  The two-stage example of the specification: the first transform doubles an integer,
  the second fails on a negative value. The source has sent a success, a failure and a
  negative success and has closed its channel; it runs one worker.
\<close>

definition double :: "(int, int) transform" where
  "double ctx v = (2 * v, None)"

definition reject_negative :: "(int, int) transform" where
  "reject_negative ctx v = (if v < 0 then (0, Some ''negative value'') else (v, None))"

definition example_source :: "int Stage" where
  "example_source = (\<lambda>w. (\<lparr>sent = [Ok 1 5, Err 1 ''boom'', Ok 1 (- 5)], is_closed = True\<rparr>, Suc w))"

section \<open>Package trigger: the timer of the ticker\<close>

text \<open>
  \<^verbatim>\<open>time.Duration\<close> is a signed 64-bit count of nanoseconds; \<^verbatim>\<open>time.Time\<close> values are
  represented by instants.
\<close>

type_synonym Duration = "64 word"
type_synonym Time = nat

definition Second :: Duration where
  "Second = 1000000000"

text \<open>
  A \<^verbatim>\<open>*time.Ticker\<close>: its period, its channel \<^verbatim>\<open>C\<close> (buffered, capacity one) and
  whether \<^verbatim>\<open>Stop\<close> has been called. \<^verbatim>\<open>time.NewTicker\<close> panics on a non-positive period.
\<close>

record TimeTicker =
  period :: Duration
  C :: "Time option"
  stopped :: bool

datatype panic = NonPositiveInterval

definition time_NewTicker :: "Duration \<Rightarrow> panic + TimeTicker" where
  "time_NewTicker d =
     (if sint d \<le> 0 then Inl NonPositiveInterval
      else Inr \<lparr>period = d, C = None, stopped = False\<rparr>)"

text \<open>
  \<^verbatim>\<open>func NewTicker(d time.Duration) chord.Trigger[time.Time] {
      return Ticker{time.NewTicker(time.Second)} }\<close>
\<close>

definition NewTicker :: "Duration \<Rightarrow> panic + TimeTicker" where
  "NewTicker d = time_NewTicker Second"

section \<open>Package trigger: goroutines, channels and deferred calls\<close>

text \<open>
  The worker goroutine that both \<^verbatim>\<open>Stage\<close> methods start has the same shape:
  \<^verbatim>\<open>go func() { defer ...; for { select { case <-ctx.Done(): return
                                          default: ch <- conduit.Ok(ctx, <-src) } } }()\<close>
  Its control points: at the \<^verbatim>\<open>select\<close>; inside \<^verbatim>\<open>default\<close>, blocked in the receive
  from the event source (the operand of the send is evaluated first); blocked in the send
  on \<^verbatim>\<open>ch\<close> with the value received; returning, which runs the deferred calls, last
  deferred first; gone. A panic in a deferred call lets the remaining deferred calls run
  and then ends the program.
\<close>

datatype 'v wpc = AtSelect | Receiving | Sending 'v | Returning | Exited | Crashed

datatype deferred = Call_Stop | Call_close_ch | Call_close_ht_ch | Call_Close

record 'v Worker =
  pc :: "'v wpc"
  defers :: "deferred list"
  panicking :: bool
  out :: "'v Result list"
  out_closed :: bool

text \<open>
  A new worker with its \<^verbatim>\<open>defer\<close> statements executed in source order: each pushes its
  call on the stack of deferred calls. Its channel \<^verbatim>\<open>ch\<close> is new: nothing sent, open.
\<close>

definition spawn :: "deferred list \<Rightarrow> 'v Worker" where
  "spawn ds = \<lparr>pc = AtSelect, defers = foldl (\<lambda>stack d. d # stack) [] ds,
                panicking = False, out = [], out_closed = False\<rparr>"

text \<open>What a reader of the worker's channel has seen.\<close>

definition chan_of :: "'v Worker \<Rightarrow> 'v Chan" where
  "chan_of r = \<lparr>sent = out r, is_closed = out_closed r\<rparr>"

text \<open>The stage, for the driver, of a production run that went as \<open>r\<close> records.\<close>

definition stage_of :: "'v Worker \<Rightarrow> 'v Stage" where
  "stage_of r = (\<lambda>w. (chan_of r, Suc w))"

text \<open>
  What happened, most recent first: the context was cancelled; run \<open>i\<close> handed an
  outcome to its reader; run \<open>i\<close> closed its output channel; run \<open>i\<close> released the
  trigger's resource (\<^verbatim>\<open>t.Stop()\<close>, \<^verbatim>\<open>ht.Close()\<close>); run \<open>i\<close> closed \<^verbatim>\<open>ht.ch\<close>.
\<close>

datatype event = CancelFired | Emitted nat | ClosedOut nat | Released nat | ClosedIn nat

text \<open>
  The request wrapper: \<^verbatim>\<open>type HttpContext struct { Writer; Request; done chan struct{} }\<close>.
  Writer and request are represented by the number of the request, the channel by the
  number of the handler goroutine that made it; the zero value has a nil channel.
\<close>

record HttpContext =
  Writer :: nat
  Request :: nat
  done_ch :: "nat option"

text \<open>
  What the scheduler and the environment can do next: cancel the context; let the
  runtime timer fire; let net/http call \<^verbatim>\<open>ServeHTTP\<close> for a request in a new goroutine;
  call the stage factory; let the worker of run \<open>i\<close> move; let the reader of the channel
  of run \<open>i\<close> take the value offered; let the worker of run \<open>i\<close> receive on \<^verbatim>\<open>ht.ch\<close>
  what handler \<open>h\<close> sends; let handler \<open>h\<close> move; call \<^verbatim>\<open>Done()\<close> on a wrapper.
\<close>

datatype action =
    Cancel
  | Tick Time
  | Arrive nat
  | Invoke
  | Step nat
  | Read nat
  | Accept nat nat
  | HStep nat
  | CallDone HttpContext

section \<open>Package trigger: the ticker\<close>

record TickerSys =
  t_ctx :: Context
  t_done :: bool
  t_ticker :: TimeTicker
  t_runs :: "Time Worker list"
  t_hist :: "event list"

text \<open>
  \<^verbatim>\<open>func (t Ticker) Stage(ctx context.Context) chord.Stage[time.Time]\<close>: the trigger
  \<open>t\<close> and the context, before the factory it returns has been called.
\<close>

definition ticker_init :: "TimeTicker \<Rightarrow> Context \<Rightarrow> TickerSys" where
  "ticker_init t ctx = \<lparr>t_ctx = ctx, t_done = False, t_ticker = t, t_runs = [], t_hist = []\<rparr>"

text \<open>
  The factory \<^verbatim>\<open>func() <-chan conduit.Result[time.Time]\<close> that \<^verbatim>\<open>Stage\<close> returns:
  \<^verbatim>\<open>ch := make(chan ...); go func() { defer t.Stop(); defer close(ch); for {...} }(); return ch\<close>.
  The channel is named by the index of the run.
\<close>

definition Ticker_Stage :: "TickerSys \<Rightarrow> nat \<times> TickerSys" where
  "Ticker_Stage s =
     (length (t_runs s), s\<lparr>t_runs := t_runs s @ [spawn [Call_Stop, Call_close_ch]]\<rparr>)"

text \<open>A deferred call of the ticker's worker \<open>i\<close>: \<^verbatim>\<open>close(ch)\<close> or \<^verbatim>\<open>t.Stop()\<close>.\<close>

definition ticker_deferred :: "nat \<Rightarrow> deferred \<Rightarrow> TickerSys \<Rightarrow> TickerSys" where
  "ticker_deferred i d s =
     (let r = t_runs s ! i in
      case d of
        Call_close_ch \<Rightarrow>
          (if out_closed r then s\<lparr>t_runs := (t_runs s)[i := r\<lparr>panicking := True\<rparr>]\<rparr>
           else s\<lparr>t_runs := (t_runs s)[i := r\<lparr>out_closed := True\<rparr>],
                   t_hist := ClosedOut i # t_hist s\<rparr>)
      | Call_Stop \<Rightarrow>
          s\<lparr>t_ticker := (t_ticker s)\<lparr>stopped := True\<rparr>, t_hist := Released i # t_hist s\<rparr>
      | _ \<Rightarrow> s)"

text \<open>One move of the worker goroutine of run \<open>i\<close>; a blocked worker stays where it is.\<close>

definition ticker_worker :: "nat \<Rightarrow> TickerSys \<Rightarrow> TickerSys" where
  "ticker_worker i s =
     (if length (t_runs s) \<le> i then s
      else
        let r = t_runs s ! i in
        case pc r of
          AtSelect \<Rightarrow>
            (if t_done s then s\<lparr>t_runs := (t_runs s)[i := r\<lparr>pc := Returning\<rparr>]\<rparr>
             else s\<lparr>t_runs := (t_runs s)[i := r\<lparr>pc := Receiving\<rparr>]\<rparr>)
        | Receiving \<Rightarrow>
            (case C (t_ticker s) of
               None \<Rightarrow> s
             | Some tm \<Rightarrow>
                 s\<lparr>t_ticker := (t_ticker s)\<lparr>C := None\<rparr>,
                   t_runs := (t_runs s)[i := r\<lparr>pc := Sending tm\<rparr>]\<rparr>)
        | Sending v \<Rightarrow> s
        | Returning \<Rightarrow>
            (case defers r of
               [] \<Rightarrow> s\<lparr>t_runs := (t_runs s)[i := r\<lparr>pc := (if panicking r then Crashed else Exited)\<rparr>]\<rparr>
             | d # ds \<Rightarrow> ticker_deferred i d (s\<lparr>t_runs := (t_runs s)[i := r\<lparr>defers := ds\<rparr>]\<rparr>))
        | Exited \<Rightarrow> s
        | Crashed \<Rightarrow> s)"

text \<open>
  The send \<^verbatim>\<open>ch <- conduit.Ok(ctx, v)\<close> completes when the reader of \<^verbatim>\<open>ch\<close> takes the
  value; the worker is then back at the \<^verbatim>\<open>select\<close>.
\<close>

definition ticker_read :: "nat \<Rightarrow> TickerSys \<Rightarrow> TickerSys" where
  "ticker_read i s =
     (if length (t_runs s) \<le> i then s
      else
        let r = t_runs s ! i in
        case pc r of
          Sending v \<Rightarrow>
            s\<lparr>t_runs := (t_runs s)[i := r\<lparr>pc := AtSelect, out := out r @ [Ok (t_ctx s) v]\<rparr>],
              t_hist := Emitted i # t_hist s\<rparr>
        | _ \<Rightarrow> s)"

text \<open>
  The runtime timer sends the time on \<^verbatim>\<open>t.C\<close> without blocking: a tick is dropped when
  the buffer is full, and a stopped ticker sends no more.
\<close>

definition ticker_step :: "TickerSys \<Rightarrow> action \<Rightarrow> TickerSys" where
  "ticker_step s a =
     (case a of
        Cancel \<Rightarrow> (if t_done s then s else s\<lparr>t_done := True, t_hist := CancelFired # t_hist s\<rparr>)
      | Tick tm \<Rightarrow>
          (if stopped (t_ticker s) \<or> C (t_ticker s) \<noteq> None then s
           else s\<lparr>t_ticker := (t_ticker s)\<lparr>C := Some tm\<rparr>\<rparr>)
      | Invoke \<Rightarrow> snd (Ticker_Stage s)
      | Step i \<Rightarrow> ticker_worker i s
      | Read i \<Rightarrow> ticker_read i s
      | _ \<Rightarrow> s)"

definition ticker_exec :: "action list \<Rightarrow> TickerSys \<Rightarrow> TickerSys" where
  "ticker_exec as s = foldl ticker_step s as"

text \<open>
  The outcomes run \<open>i\<close> handed over after the cancellation signal fired, read off the
  history (most recent first): the \<open>Emitted i\<close> more recent than \<open>CancelFired\<close>.
\<close>

definition emitted_after_cancel :: "nat \<Rightarrow> event list \<Rightarrow> nat" where
  "emitted_after_cancel i h =
     (if CancelFired \<in> set h
      then length (filter (\<lambda>e. e = Emitted i) (takeWhile (\<lambda>e. e \<noteq> CancelFired) h))
      else 0)"

text \<open>How often run \<open>i\<close> closed its output channel.\<close>

definition times_closed :: "nat \<Rightarrow> event list \<Rightarrow> nat" where
  "times_closed i h = length (filter (\<lambda>e. e = ClosedOut i) h)"

text \<open>
  Run \<open>i\<close> closed its output channel before it released the resource: in the history
  (most recent first) a \<open>ClosedOut i\<close> lies behind the first \<open>Released i\<close>.
\<close>

definition closed_before_release :: "nat \<Rightarrow> event list \<Rightarrow> bool" where
  "closed_before_release i h = (ClosedOut i \<in> set (dropWhile (\<lambda>e. e \<noteq> Released i) h))"

section \<open>Package trigger: the HTTP trigger\<close>

subsection \<open>NewHttp\<close>









subsection \<open>Handler goroutines and Done\<close>

text \<open>
  \<^verbatim>\<open>func (h Handler) ServeHTTP(w http.ResponseWriter, r *http.Request) {
      ch := make(chan struct{})
      defer close(ch)
      h.ch <- HttpContext{Writer: w, Request: r, done: ch}
      <-ch }\<close>
  The goroutine is blocked in the send on \<^verbatim>\<open>h.ch\<close>, or blocked in the receive from its
  own \<^verbatim>\<open>ch\<close>, or has received and is returning (the deferred \<^verbatim>\<open>close(ch)\<close> is due), or
  has returned; a send on the closed \<^verbatim>\<open>h.ch\<close> panics, the deferred close runs, and
  net/http recovers the panic of the handler.
\<close>

datatype hpc = HSend | HWait | HDefer | HReturned | HPanicked

record HandlerThread =
  hpc :: hpc
  wrapper :: HttpContext
  done_closed :: bool

record HttpSys =
  h_ctx :: Context
  h_done :: bool
  in_closed :: bool
  server_closed :: bool
  handlers :: "HandlerThread list"
  h_runs :: "HttpContext Worker list"
  h_hist :: "event list"
  crashed :: bool

definition http_init :: "Context \<Rightarrow> HttpSys" where
  "http_init ctx = \<lparr>h_ctx = ctx, h_done = False, in_closed = False, server_closed = False,
                    handlers = [], h_runs = [], h_hist = [], crashed = False\<rparr>"

text \<open>net/http calls \<^verbatim>\<open>ServeHTTP\<close> for request \<open>r\<close> in a goroutine of its own.\<close>

definition Handler_ServeHTTP :: "nat \<Rightarrow> HttpSys \<Rightarrow> HttpSys" where
  "Handler_ServeHTTP r s =
     s\<lparr>handlers := handlers s @
         [\<lparr>hpc = HSend,
           wrapper = \<lparr>Writer = r, Request = r, done_ch = Some (length (handlers s))\<rparr>,
           done_closed = False\<rparr>]\<rparr>"

text \<open>A move of handler goroutine \<open>h\<close> that needs no partner.\<close>

definition handler_move :: "nat \<Rightarrow> HttpSys \<Rightarrow> HttpSys" where
  "handler_move h s =
     (if length (handlers s) \<le> h then s
      else
        let t = handlers s ! h in
        case hpc t of
          HSend \<Rightarrow>
            (if in_closed s
             then s\<lparr>handlers := (handlers s)[h := t\<lparr>hpc := HPanicked, done_closed := True\<rparr>]\<rparr>
             else s)
        | HDefer \<Rightarrow> s\<lparr>handlers := (handlers s)[h := t\<lparr>hpc := HReturned, done_closed := True\<rparr>]\<rparr>
        | _ \<Rightarrow> s)"

text \<open>
  \<^verbatim>\<open>func (h HttpContext) Done() { h.done <- struct{}{} }\<close>
  The send is taken by the handler goroutine waiting in \<^verbatim>\<open><-ch\<close>; on a closed channel
  it panics, in the goroutine of the caller; on a nil channel, and while nobody
  receives, the caller stays blocked.
\<close>

datatype done_result = Unblocked | StillBlocked | Panics

definition HttpContext_Done :: "HttpContext \<Rightarrow> HttpSys \<Rightarrow> done_result \<times> HttpSys" where
  "HttpContext_Done w s =
     (case done_ch w of
        None \<Rightarrow> (StillBlocked, s)
      | Some h \<Rightarrow>
          (if length (handlers s) \<le> h then (StillBlocked, s)
           else
             let t = handlers s ! h in
             if done_closed t then (Panics, s\<lparr>crashed := True\<rparr>)
             else if hpc t = HWait
               then (Unblocked, s\<lparr>handlers := (handlers s)[h := t\<lparr>hpc := HDefer\<rparr>]\<rparr>)
             else (StillBlocked, s)))"

subsection \<open>The stage of the HTTP trigger\<close>

text \<open>
  The factory that \<^verbatim>\<open>func (ht Http) Stage(ctx context.Context)\<close> returns:
  \<^verbatim>\<open>ch := make(chan ...); go func() { defer ht.Close(); defer close(ch); defer close(ht.ch)
      for { select { case <-ctx.Done(): return; default: ch <- conduit.Ok(ctx, <-ht.ch) } } }()\<close>
\<close>

definition Http_Stage :: "HttpSys \<Rightarrow> nat \<times> HttpSys" where
  "Http_Stage s =
     (length (h_runs s),
      s\<lparr>h_runs := h_runs s @ [spawn [Call_Close, Call_close_ch, Call_close_ht_ch]]\<rparr>)"

text \<open>
  A deferred call of worker \<open>i\<close>: \<^verbatim>\<open>close(ht.ch)\<close>, \<^verbatim>\<open>close(ch)\<close> or \<^verbatim>\<open>ht.Close()\<close>.
  Closing a closed channel panics.
\<close>

definition http_deferred :: "nat \<Rightarrow> deferred \<Rightarrow> HttpSys \<Rightarrow> HttpSys" where
  "http_deferred i d s =
     (let r = h_runs s ! i in
      case d of
        Call_close_ht_ch \<Rightarrow>
          (if in_closed s then s\<lparr>h_runs := (h_runs s)[i := r\<lparr>panicking := True\<rparr>]\<rparr>
           else s\<lparr>in_closed := True, h_hist := ClosedIn i # h_hist s\<rparr>)
      | Call_close_ch \<Rightarrow>
          (if out_closed r then s\<lparr>h_runs := (h_runs s)[i := r\<lparr>panicking := True\<rparr>]\<rparr>
           else s\<lparr>h_runs := (h_runs s)[i := r\<lparr>out_closed := True\<rparr>],
                   h_hist := ClosedOut i # h_hist s\<rparr>)
      | Call_Close \<Rightarrow> s\<lparr>server_closed := True, h_hist := Released i # h_hist s\<rparr>
      | _ \<Rightarrow> s)"

text \<open>
  One move of the worker of run \<open>i\<close> that needs no partner. A receive from the closed
  \<^verbatim>\<open>ht.ch\<close> yields the zero \<^verbatim>\<open>HttpContext\<close> at once.
\<close>

definition zero_HttpContext :: HttpContext where
  "zero_HttpContext = \<lparr>Writer = 0, Request = 0, done_ch = None\<rparr>"

definition http_worker :: "nat \<Rightarrow> HttpSys \<Rightarrow> HttpSys" where
  "http_worker i s =
     (if length (h_runs s) \<le> i then s
      else
        let r = h_runs s ! i in
        case pc r of
          AtSelect \<Rightarrow>
            (if h_done s then s\<lparr>h_runs := (h_runs s)[i := r\<lparr>pc := Returning\<rparr>]\<rparr>
             else s\<lparr>h_runs := (h_runs s)[i := r\<lparr>pc := Receiving\<rparr>]\<rparr>)
        | Receiving \<Rightarrow>
            (if in_closed s
             then s\<lparr>h_runs := (h_runs s)[i := r\<lparr>pc := Sending zero_HttpContext\<rparr>]\<rparr>
             else s)
        | Sending v \<Rightarrow> s
        | Returning \<Rightarrow>
            (case defers r of
               [] \<Rightarrow>
                 s\<lparr>h_runs := (h_runs s)[i := r\<lparr>pc := (if panicking r then Crashed else Exited)\<rparr>],
                   crashed := panicking r\<rparr>
             | d # ds \<Rightarrow> http_deferred i d (s\<lparr>h_runs := (h_runs s)[i := r\<lparr>defers := ds\<rparr>]\<rparr>))
        | Exited \<Rightarrow> s
        | Crashed \<Rightarrow> s)"

text \<open>
  The rendezvous on the unbuffered \<^verbatim>\<open>ht.ch\<close>: worker \<open>i\<close>, blocked in \<^verbatim>\<open><-ht.ch\<close>,
  receives the wrapper that handler \<open>h\<close>, blocked in \<^verbatim>\<open>h.ch <- ...\<close>, sends.
\<close>

definition http_accept :: "nat \<Rightarrow> nat \<Rightarrow> HttpSys \<Rightarrow> HttpSys" where
  "http_accept i h s =
     (if length (h_runs s) \<le> i \<or> length (handlers s) \<le> h \<or> in_closed s then s
      else
        let r = h_runs s ! i; t = handlers s ! h in
        if pc r = Receiving \<and> hpc t = HSend
        then s\<lparr>h_runs := (h_runs s)[i := r\<lparr>pc := Sending (wrapper t)\<rparr>],
               handlers := (handlers s)[h := t\<lparr>hpc := HWait\<rparr>]\<rparr>
        else s)"

definition http_read :: "nat \<Rightarrow> HttpSys \<Rightarrow> HttpSys" where
  "http_read i s =
     (if length (h_runs s) \<le> i then s
      else
        let r = h_runs s ! i in
        case pc r of
          Sending v \<Rightarrow>
            s\<lparr>h_runs := (h_runs s)[i := r\<lparr>pc := AtSelect, out := out r @ [Ok (h_ctx s) v]\<rparr>],
              h_hist := Emitted i # h_hist s\<rparr>
        | _ \<Rightarrow> s)"

text \<open>
  A step of the whole: nothing moves once the program has crashed, and a closed server
  takes no new request.
\<close>

definition http_step :: "HttpSys \<Rightarrow> action \<Rightarrow> HttpSys" where
  "http_step s a =
     (if crashed s then s
      else
        case a of
          Cancel \<Rightarrow> (if h_done s then s else s\<lparr>h_done := True, h_hist := CancelFired # h_hist s\<rparr>)
        | Arrive r \<Rightarrow> (if server_closed s then s else Handler_ServeHTTP r s)
        | Invoke \<Rightarrow> snd (Http_Stage s)
        | Step i \<Rightarrow> http_worker i s
        | Read i \<Rightarrow> http_read i s
        | Accept i h \<Rightarrow> http_accept i h s
        | HStep h \<Rightarrow> handler_move h s
        | CallDone w \<Rightarrow> snd (HttpContext_Done w s)
        | Tick tm \<Rightarrow> s)"

definition http_exec :: "action list \<Rightarrow> HttpSys \<Rightarrow> HttpSys" where
  "http_exec as s = foldl http_step s as"

section \<open>One run at a time\<close>

text \<open>
  What one run \<open>i\<close> of a trigger has to do with the rest of the system: whether the
  context is cancelled, the history, and the worker of the run (\<open>None\<close> before the
  factory has been called for the \<open>i\<close>-th time).
\<close>

type_synonym 'v view = "bool \<times> event list \<times> 'v Worker option"

text \<open>An event of a run other than \<open>i\<close>.\<close>

fun foreign :: "nat \<Rightarrow> event \<Rightarrow> bool" where
  "foreign i CancelFired = False"
| "foreign i (Emitted j) = (j \<noteq> i)"
| "foreign i (ClosedOut j) = (j \<noteq> i)"
| "foreign i (Released j) = (j \<noteq> i)"
| "foreign i (ClosedIn j) = (j \<noteq> i)"

text \<open>
  Every step of either trigger, seen from run \<open>i\<close>, is one of these. \<open>ds\<close> are the
  \<^verbatim>\<open>defer\<close> statements of the worker, \<open>junk\<close> the deferred calls its trigger does not have.
\<close>

inductive lstep :: "deferred set \<Rightarrow> deferred list \<Rightarrow> nat \<Rightarrow> 'v view \<Rightarrow> 'v view \<Rightarrow> bool"
  for junk :: "deferred set" and ds :: "deferred list" and i :: nat where
  idle: "lstep junk ds i x x"
| cancel: "lstep junk ds i (False, h, ro) (True, CancelFired # h, ro)"
| other: "foreign i e \<Longrightarrow> lstep junk ds i (d, h, ro) (d, e # h, ro)"
| invoke: "lstep junk ds i (d, h, None) (d, h, Some (spawn ds))"
| poll_done: "pc r = AtSelect \<Longrightarrow> lstep junk ds i (True, h, Some r) (True, h, Some (r\<lparr>pc := Returning\<rparr>))"
| poll_go: "pc r = AtSelect \<Longrightarrow> lstep junk ds i (False, h, Some r) (False, h, Some (r\<lparr>pc := Receiving\<rparr>))"
| recv: "pc r = Receiving \<Longrightarrow> lstep junk ds i (d, h, Some r) (d, h, Some (r\<lparr>pc := Sending v\<rparr>))"
| send: "pc r = Sending v \<Longrightarrow>
    lstep junk ds i (d, h, Some r) (d, Emitted i # h, Some (r\<lparr>pc := AtSelect, out := out r @ [x]\<rparr>))"
| leave: "pc r = Returning \<Longrightarrow> defers r = [] \<Longrightarrow>
    lstep junk ds i (d, h, Some r) (d, h, Some (r\<lparr>pc := (if panicking r then Crashed else Exited)\<rparr>))"
| close_out: "pc r = Returning \<Longrightarrow> defers r = Call_close_ch # st \<Longrightarrow> \<not> out_closed r \<Longrightarrow>
    lstep junk ds i (d, h, Some r) (d, ClosedOut i # h, Some (r\<lparr>defers := st, out_closed := True\<rparr>))"
| close_again: "pc r = Returning \<Longrightarrow> defers r = c # st \<Longrightarrow> c = Call_close_ch \<or> c = Call_close_ht_ch \<Longrightarrow>
    c \<notin> junk \<Longrightarrow> c = Call_close_ch \<longrightarrow> out_closed r \<Longrightarrow>
    lstep junk ds i (d, h, Some r) (d, h, Some (r\<lparr>defers := st, panicking := True\<rparr>))"
| release: "pc r = Returning \<Longrightarrow> defers r = c # st \<Longrightarrow> c = Call_Stop \<or> c = Call_Close \<Longrightarrow> c \<notin> junk \<Longrightarrow>
    lstep junk ds i (d, h, Some r) (d, Released i # h, Some (r\<lparr>defers := st\<rparr>))"
| close_in: "pc r = Returning \<Longrightarrow> defers r = Call_close_ht_ch # st \<Longrightarrow> Call_close_ht_ch \<notin> junk \<Longrightarrow>
    lstep junk ds i (d, h, Some r) (d, ClosedIn i # h, Some (r\<lparr>defers := st\<rparr>))"
| skip: "pc r = Returning \<Longrightarrow> defers r = c # st \<Longrightarrow> c \<in> junk \<Longrightarrow>
    lstep junk ds i (d, h, Some r) (d, h, Some (r\<lparr>defers := st\<rparr>))"

text \<open>The view of run \<open>i\<close> in a system.\<close>

definition view :: "nat \<Rightarrow> bool \<Rightarrow> event list \<Rightarrow> 'v Worker list \<Rightarrow> 'v view" where
  "view i d h rs = (d, h, if i < length rs then Some (rs ! i) else None)"

text \<open>The view of run \<open>i\<close> in the system of a ticker, and the steps of that system.\<close>

definition ticker_view :: "nat \<Rightarrow> TickerSys \<Rightarrow> Time view" where
  "ticker_view i s = view i (t_done s) (t_hist s) (t_runs s)"

abbreviation "tstep \<equiv> lstep {Call_close_ht_ch, Call_Close} [Call_Stop, Call_close_ch]"

text \<open>
  The outcomes a worker may still hand over without looking at the cancellation signal
  again: one when it is inside the \<^verbatim>\<open>default\<close> branch, none otherwise.
\<close>

fun pending :: "'v wpc \<Rightarrow> nat" where
  "pending Receiving = 1"
| "pending (Sending v) = 1"
| "pending _ = 0"

text \<open>
  The \<open>Emitted i\<close> in front of the first \<open>CancelFired\<close> of a history, most recent first.
\<close>

definition after_cancel :: "nat \<Rightarrow> event list \<Rightarrow> nat" where
  "after_cancel i h = length (filter (\<lambda>e. e = Emitted i) (takeWhile (\<lambda>e. e \<noteq> CancelFired) h))"

text \<open>
  The invariant behind the bound on what is emitted after the cancellation: the
  outcomes emitted since the signal fired and the one still due are at most one.
\<close>

fun cancel_ok :: "nat \<Rightarrow> 'v view \<Rightarrow> bool" where
  "cancel_ok i (d, h, None) = (d = (CancelFired \<in> set h) \<and> Emitted i \<notin> set h)"
| "cancel_ok i (d, h, Some r) =
     (d = (CancelFired \<in> set h) \<and> (d \<longrightarrow> after_cancel i h + pending (pc r) \<le> 1))"

text \<open>
  The invariant of the ticker's deferred calls: the stack is \<^verbatim>\<open>[close(ch), t.Stop()]\<close>
  with the channel open, then \<^verbatim>\<open>[t.Stop()]\<close> with the channel closed once, then empty
  with the timer stopped after the close.
\<close>

fun ticker_close_ok :: "nat \<Rightarrow> 'v view \<Rightarrow> bool" where
  "ticker_close_ok i (d, h, None) =
     (times_closed i h = 0 \<and> ClosedOut i \<notin> set h \<and> Released i \<notin> set h)"
| "ticker_close_ok i (d, h, Some r) =
     (defers r = [Call_close_ch, Call_Stop] \<and> \<not> out_closed r \<and> pc r \<noteq> Exited \<and> pc r \<noteq> Crashed
        \<and> times_closed i h = 0 \<and> ClosedOut i \<notin> set h \<and> Released i \<notin> set h
      \<or> defers r = [Call_Stop] \<and> pc r = Returning \<and> out_closed r
        \<and> times_closed i h = 1 \<and> ClosedOut i \<in> set h \<and> Released i \<notin> set h
      \<or> defers r = [] \<and> (pc r = Returning \<or> pc r = Exited \<or> pc r = Crashed) \<and> out_closed r
        \<and> times_closed i h = 1 \<and> ClosedOut i \<in> set h \<and> Released i \<in> set h
        \<and> closed_before_release i h)"

text \<open>The view of run \<open>i\<close> in the system of an HTTP trigger, and the steps of that system.\<close>

definition http_view :: "nat \<Rightarrow> HttpSys \<Rightarrow> HttpContext view" where
  "http_view i s = view i (h_done s) (h_hist s) (h_runs s)"

abbreviation "hstep \<equiv> lstep {Call_Stop} [Call_Close, Call_close_ch, Call_close_ht_ch]"

text \<open>
  The invariant of the HTTP worker's deferred calls: the stack goes from
  \<^verbatim>\<open>[close(ht.ch), close(ch), ht.Close()]\<close> down to empty; the output channel is closed
  once when \<^verbatim>\<open>close(ch)\<close> has left the stack, and the server is closed after that.
\<close>

fun http_close_ok :: "nat \<Rightarrow> 'v view \<Rightarrow> bool" where
  "http_close_ok i (d, h, None) =
     (times_closed i h = 0 \<and> ClosedOut i \<notin> set h \<and> Released i \<notin> set h)"
| "http_close_ok i (d, h, Some r) =
     (defers r = [Call_close_ht_ch, Call_close_ch, Call_Close] \<and> \<not> out_closed r
        \<and> pc r \<noteq> Exited \<and> pc r \<noteq> Crashed
        \<and> times_closed i h = 0 \<and> ClosedOut i \<notin> set h \<and> Released i \<notin> set h
      \<or> defers r = [Call_close_ch, Call_Close] \<and> pc r = Returning \<and> \<not> out_closed r
        \<and> times_closed i h = 0 \<and> ClosedOut i \<notin> set h \<and> Released i \<notin> set h
      \<or> defers r = [Call_Close] \<and> pc r = Returning \<and> out_closed r
        \<and> times_closed i h = 1 \<and> ClosedOut i \<in> set h \<and> Released i \<notin> set h
      \<or> defers r = [] \<and> (pc r = Returning \<or> pc r = Exited \<or> pc r = Crashed) \<and> out_closed r
        \<and> times_closed i h = 1 \<and> ClosedOut i \<in> set h \<and> Released i \<in> set h
        \<and> closed_before_release i h)"

text \<open>
  The moves a worker that is on its way out still has to make until its output channel
  is closed: the deferred calls above \<^verbatim>\<open>close(ch)\<close>, that call, and the check of the
  signal when it has not returned yet.
\<close>

definition togo :: "'v Worker \<Rightarrow> nat" where
  "togo r =
     (if out_closed r then 0
      else length (takeWhile (\<lambda>c. c \<noteq> Call_close_ch) (defers r)) + (if pc r = Returning then 1 else 2))"

text \<open>
  A run that has emitted nothing and is on its way out: the context is cancelled and the
  worker is at the \<^verbatim>\<open>select\<close>, returning, or gone.
\<close>

fun quiet :: "'v view \<Rightarrow> bool" where
  "quiet (d, h, None) = False"
| "quiet (d, h, Some r) =
     (d \<and> out r = [] \<and> (pc r = AtSelect \<or> pc r = Returning \<or> pc r = Exited \<or> pc r = Crashed))"

text \<open>The same for the view of a run.\<close>

fun togo_view :: "'v view \<Rightarrow> nat" where
  "togo_view (d, h, None) = 0"
| "togo_view (d, h, Some r) = togo r"

text \<open>The timer that \<open>NewTicker\<close> builds.\<close>

definition second_ticker :: TimeTicker where
  "second_ticker = \<lparr>period = Second, C = None, stopped = False\<rparr>"

text \<open>A flow that counts the calls of its handlers, over a pipeline of the stages \<open>fns\<close>.\<close>

definition counting_flow :: "('v, 'v) transform list \<Rightarrow> ('v, 'v, nat) Flow" where
  "counting_flow fns =
     \<lparr>OnSuccess = (\<lambda>ctx v n. (None, Suc n)), OnError = (\<lambda>ctx e n. Suc n), Pipeline = pipeline fns\<rparr>"

text \<open>
  The order the specification asks for: run \<open>i\<close> released the resource before it
  closed its output channel (a \<open>Released i\<close> lies behind the first \<open>ClosedOut i\<close>).
\<close>

definition released_before_close :: "nat \<Rightarrow> event list \<Rightarrow> bool" where
  "released_before_close i h = (Released i \<in> set (dropWhile (\<lambda>e. e \<noteq> ClosedOut i) h))"


section \<open>Properties\<close>

subsection \<open>Stages built with NewStage\<close>

lemma worker_map: "worker fn rs = map (relay fn) rs"
  by (induction rs) auto

lemma relay_Err: "relay fn (Err ctx e) = (Err ctx e, [])"
  by (simp add: relay_def)

lemma relay_Ok:
  "relay fn (Ok ctx v) =
     ((case snd (fn ctx v) of Some e \<Rightarrow> Err ctx e | None \<Rightarrow> Ok ctx (fst (fn ctx v))), [(ctx, v)])"
  by (simp add: relay_def split: prod.splits option.splits)

lemma NewStage_sent: "sent (fst (NewStage s fn w)) = map (\<lambda>r. fst (relay fn r)) (sent (fst (s w)))"
  by (simp add: NewStage_def NewProducerConsumer_def worker_map split: prod.splits)

lemma NewStage_is_closed: "is_closed (fst (NewStage s fn w)) = is_closed (fst (s w))"
  by (simp add: NewStage_def NewProducerConsumer_def split: prod.splits)

lemma NewStage_workers: "snd (NewStage s fn w) = Suc (snd (s w))"
  by (simp add: NewStage_def NewProducerConsumer_def split: prod.splits)

lemma through_Err: "through fns (Err ctx e) = Err ctx e"
  by (induction fns) (simp_all add: through_def relay_Err)

lemma pipeline_Cons: "pipeline (fn # fns) s = pipeline fns (NewStage s fn)"
  by (simp add: pipeline_def)

lemma pipeline_sent: "sent (fst (pipeline fns s w)) = map (through fns) (sent (fst (s w)))"
proof (induction fns arbitrary: s)
  case Nil
  show ?case by (simp add: pipeline_def through_def)
next
  case (Cons fn fns)
  show ?case
    using Cons [of "NewStage s fn"] by (simp add: pipeline_Cons NewStage_sent through_def)
qed

lemma pipeline_is_closed: "is_closed (fst (pipeline fns s w)) = is_closed (fst (s w))"
proof (induction fns arbitrary: s)
  case Nil
  show ?case by (simp add: pipeline_def)
next
  case (Cons fn fns)
  show ?case
    using Cons [of "NewStage s fn"] by (simp add: pipeline_Cons NewStage_is_closed)
qed

lemma pipeline_workers: "snd (pipeline fns s w) = snd (s w) + length fns"
proof (induction fns arbitrary: s)
  case Nil
  show ?case by (simp add: pipeline_def)
next
  case (Cons fn fns)
  show ?case
    using Cons [of "NewStage s fn"] by (simp add: pipeline_Cons NewStage_workers)
qed

subsection \<open>The driver\<close>

lemma consumer_calls: "fst (consumer_loop onS onE rs u) = map dispatch rs"
  by (induction onS onE rs u rule: consumer_loop.induct)
     (auto simp: dispatch_def split: prod.splits)

lemma consumer_user:
  "snd (consumer_loop (OnSuccess f) (OnError f) rs u) = foldl (handle_outcome f) u rs"
  by (induction "OnSuccess f" "OnError f" rs u rule: consumer_loop.induct)
     (auto simp: handle_outcome_def split: prod.splits)

lemma RunFlow_calls: "calls (RunFlow s f w u) = map dispatch (sent (fst (Pipeline f s w)))"
  using consumer_calls [of "OnSuccess f" "OnError f" "sent (fst (Pipeline f s w))" u]
  by (auto simp: RunFlow_def NewConsumer_def split: prod.splits)

lemma RunFlow_user:
  "user (RunFlow s f w u) = foldl (handle_outcome f) u (sent (fst (Pipeline f s w)))"
  using consumer_user [of f "sent (fst (Pipeline f s w))" u]
  by (auto simp: RunFlow_def NewConsumer_def split: prod.splits)

lemma RunFlow_returned: "returned (RunFlow s f w u) = is_closed (fst (Pipeline f s w))"
  by (simp add: RunFlow_def NewConsumer_def split: prod.splits)

lemma RunFlow_workers: "workers (RunFlow s f w u) = snd (Pipeline f s w)"
  by (simp add: RunFlow_def NewConsumer_def split: prod.splits)

text \<open>
  Claim C1. In a stage built with \<open>NewStage\<close>, an item that arrives as a failure makes
  no call of the transform and leaves as the same failure. So through a pipeline of
  such stages no later transform runs for the item, the failure arrives unchanged at the
  end, and the driver hands it to the error handler.
\<close>

theorem NewStage_failure_short_circuit:
  assumes "i < length (sent (fst (s w)))" and "sent (fst (s w)) ! i = Err ctx e"
  shows "transform_calls s fn w i = []
    \<and> sent (fst (NewStage s fn w)) ! i = Err ctx e
    \<and> (\<forall>k<length fns. transform_calls (pipeline (take k fns) s) (fns ! k) w i = [])
    \<and> sent (fst (pipeline fns s w)) ! i = Err ctx e
    \<and> calls (RunFlow s \<lparr>OnSuccess = onS, OnError = onE, Pipeline = pipeline fns\<rparr> w u) ! i
        = OnErrorCall ctx e"
proof -
  have one: "transform_calls s fn w i = [] \<and> sent (fst (NewStage s fn w)) ! i = Err ctx e"
    using assms by (simp add: transform_calls_def worker_map NewStage_sent relay_Err)
  have through: "sent (fst (pipeline gs s w)) ! i = Err ctx e" for gs
    using assms by (simp add: pipeline_sent through_Err)
  have later: "transform_calls (pipeline (take k fns) s) (fns ! k) w i = []" for k
    using assms through [of "take k fns"]
    by (simp add: transform_calls_def worker_map pipeline_sent relay_Err)
  have handler:
    "calls (RunFlow s \<lparr>OnSuccess = onS, OnError = onE, Pipeline = pipeline fns\<rparr> w u) ! i
       = OnErrorCall ctx e"
    using assms through [of fns] by (simp add: RunFlow_calls pipeline_sent dispatch_def)
  show ?thesis using one through [of fns] later handler by simp
qed

theorem NewStage_failure_short_circuit_witness:
  "1 < length (sent (fst (example_source 0)))
   \<and> sent (fst (example_source 0)) ! 1 = Err 1 ''boom''
   \<and> transform_calls example_source double 0 1 = []
   \<and> sent (fst (NewStage example_source double 0)) ! 1 = Err 1 ''boom''
   \<and> transform_calls (pipeline (take 1 [double, reject_negative]) example_source)
        ([double, reject_negative] ! 1) 0 1 = []
   \<and> sent (fst (pipeline [double, reject_negative] example_source 0)) ! 1 = Err 1 ''boom''
   \<and> calls (RunFlow example_source
        \<lparr>OnSuccess = (\<lambda>ctx v u. (None, Suc u)), OnError = (\<lambda>ctx e u. u),
         Pipeline = pipeline [double, reject_negative]\<rparr> 0 (0::nat)) ! 1
       = OnErrorCall 1 ''boom''"
proof -
  have len: "1 < length (sent (fst (example_source 0)))"
    by (simp add: example_source_def)
  have item: "sent (fst (example_source 0)) ! 1 = Err 1 ''boom''"
    by (simp add: example_source_def)
  note inst = NewStage_failure_short_circuit [where s = example_source and w = 0 and i = 1
        and ctx = 1 and e = "''boom''" and fn = double and fns = "[double, reject_negative]"
        and onS = "\<lambda>ctx v u. (None, Suc u)" and onE = "\<lambda>ctx e u. u" and u = "0::nat",
      OF len item]
  have "(1::nat) < length [double, reject_negative]"
    by simp
  with inst have "transform_calls (pipeline (take 1 [double, reject_negative]) example_source)
        ([double, reject_negative] ! 1) 0 1 = []"
    by blast
  with len item inst show ?thesis
    by blast
qed

text \<open>
  Claim C3. In a stage built with \<open>NewStage\<close>, an item that arrives as a success makes
  one call of the transform, with the context and the value the outcome carries; the
  stage emits a failure with the error the transform returned, or else a success with
  the value it returned.
\<close>

theorem NewStage_success_transform:
  assumes "i < length (sent (fst (s w)))" and "sent (fst (s w)) ! i = Ok ctx v"
  shows "transform_calls s fn w i = [(ctx, v)]
    \<and> sent (fst (NewStage s fn w)) ! i =
        (case snd (fn ctx v) of Some e \<Rightarrow> Err ctx e | None \<Rightarrow> Ok ctx (fst (fn ctx v)))"
  using assms by (simp add: transform_calls_def worker_map NewStage_sent relay_Ok)

theorem NewStage_success_transform_witness:
  "2 < length (sent (fst (NewStage example_source double 0)))
   \<and> sent (fst (NewStage example_source double 0)) ! 2 = Ok 1 (- 10)
   \<and> transform_calls (NewStage example_source double) reject_negative 0 2 = [(1, - 10)]
   \<and> sent (fst (NewStage (NewStage example_source double) reject_negative 0)) ! 2
       = Err 1 ''negative value''"
proof -
  have len: "2 < length (sent (fst (NewStage example_source double 0)))"
    by (simp add: NewStage_sent example_source_def)
  have item: "sent (fst (NewStage example_source double 0)) ! 2 = Ok 1 (- 10)"
    by (simp add: NewStage_sent example_source_def relay_Ok double_def)
  show ?thesis
    using len item
      NewStage_success_transform [where s = "NewStage example_source double" and w = 0
        and i = 2 and ctx = 1 and v = "- 10" and fn = reject_negative, OF len item]
    by (simp add: reject_negative_def)
qed

text \<open>
  Claim C2. \<open>RunFlow\<close> builds the chain with the flow's \<open>Pipeline\<close> and instantiates it
  once (the workers started are those of one call of the factory); it makes one handler
  call for each outcome, the success handler on a success and the error handler on a
  failure, one after the other in the order of the stream, each handler working on the
  state the one before left; and it has returned exactly when the channel was closed.
\<close>

theorem RunFlow_drains_in_order:
  "calls (RunFlow s f w u) = map dispatch (sent (fst (Pipeline f s w)))
   \<and> user (RunFlow s f w u) = foldl (handle_outcome f) u (sent (fst (Pipeline f s w)))
   \<and> returned (RunFlow s f w u) = is_closed (fst (Pipeline f s w))
   \<and> workers (RunFlow s f w u) = snd (Pipeline f s w)"
  by (simp add: RunFlow_calls RunFlow_user RunFlow_returned RunFlow_workers)

subsection \<open>The ticker\<close>

text \<open>
  Claim C4. For every duration \<open>d\<close>, \<open>NewTicker d\<close> builds its periodic timer with the
  fixed period of one second and never looks at \<open>d\<close>: no duration makes it panic, and
  two tickers built with different durations are the same.
\<close>

theorem NewTicker_ignores_duration:
  "NewTicker d = Inr \<lparr>period = Second, C = None, stopped = False\<rparr>
   \<and> NewTicker d = NewTicker d'"
  by (simp add: NewTicker_def time_NewTicker_def Second_def)

subsection \<open>Workers seen one run at a time\<close>

lemma view_same:
  "i < length rs \<Longrightarrow> view i d h (rs[j := r]) = (d, h, Some (if i = j then r else rs ! i))"
  "\<not> i < length rs \<Longrightarrow> view i d h (rs[j := r]) = (d, h, None)"
  by (auto simp: view_def)

lemma ticker_worker_view:
  "tstep i (ticker_view i s) (ticker_view i (ticker_worker j s))"
proof (cases "length (t_runs s) \<le> j")
  case True
  then show ?thesis by (simp add: ticker_worker_def lstep.idle)
next
  case False
  then have j: "j < length (t_runs s)" by simp
  show ?thesis
  proof (cases "i = j")
    case False
    show ?thesis
    proof (cases "pc (t_runs s ! j)")
      case Returning
      show ?thesis
      proof (cases "defers (t_runs s ! j)")
        case Nil
        with Returning j \<open>i \<noteq> j\<close> show ?thesis
          by (auto simp: ticker_worker_def ticker_view_def view_def Let_def intro: lstep.idle)
      next
        case (Cons c st)
        with Returning j \<open>i \<noteq> j\<close> show ?thesis
          by (cases c)
            (auto simp: ticker_worker_def ticker_deferred_def ticker_view_def view_def Let_def
              intro: lstep.idle lstep.other)
      qed
    qed (use j \<open>i \<noteq> j\<close> in \<open>auto simp: ticker_worker_def ticker_view_def view_def Let_def
          split: option.splits intro: lstep.idle\<close>)
  next
    case True
    show ?thesis
    proof (cases "pc (t_runs s ! j)")
      case AtSelect
      with j True show ?thesis
        by (cases "t_done s")
          (auto simp: ticker_worker_def ticker_view_def view_def Let_def
            intro: lstep.poll_done lstep.poll_go)
    next
      case Receiving
      with j True show ?thesis
        by (auto simp: ticker_worker_def ticker_view_def view_def Let_def
            split: option.splits intro: lstep.idle lstep.recv)
    next
      case (Sending v)
      with j True show ?thesis
        by (auto simp: ticker_worker_def ticker_view_def view_def Let_def intro: lstep.idle)
    next
      case Returning
      show ?thesis
      proof (cases "defers (t_runs s ! j)")
        case Nil
        with Returning j True show ?thesis
          using lstep.leave [of "t_runs s ! j" "{Call_close_ht_ch, Call_Close}" "[Call_Stop, Call_close_ch]" j "t_done s" "t_hist s"]
          by (auto simp: ticker_worker_def ticker_view_def view_def Let_def)
      next
        case (Cons c st)
        show ?thesis
        proof (cases c)
          case Call_Stop
          with Cons Returning j True show ?thesis
            using lstep.release [of "t_runs s ! j" c st "{Call_close_ht_ch, Call_Close}" "[Call_Stop, Call_close_ch]" j "t_done s" "t_hist s"]
            by (auto simp: ticker_worker_def ticker_deferred_def ticker_view_def view_def Let_def)
        next
          case Call_close_ch
          with Cons Returning j True show ?thesis
            using lstep.close_out [of "t_runs s ! j" st "{Call_close_ht_ch, Call_Close}" "[Call_Stop, Call_close_ch]" j "t_done s" "t_hist s"]
              lstep.close_again [of "t_runs s ! j" c st "{Call_close_ht_ch, Call_Close}" "[Call_Stop, Call_close_ch]" j "t_done s" "t_hist s"]
            by (auto simp: ticker_worker_def ticker_deferred_def ticker_view_def view_def Let_def)
        next
          case Call_close_ht_ch
          with Cons Returning j True show ?thesis
            using lstep.skip [of "t_runs s ! j" c st "{Call_close_ht_ch, Call_Close}" "[Call_Stop, Call_close_ch]" j "t_done s" "t_hist s"]
            by (auto simp: ticker_worker_def ticker_deferred_def ticker_view_def view_def Let_def)
        next
          case Call_Close
          with Cons Returning j True show ?thesis
            using lstep.skip [of "t_runs s ! j" c st "{Call_close_ht_ch, Call_Close}" "[Call_Stop, Call_close_ch]" j "t_done s" "t_hist s"]
            by (auto simp: ticker_worker_def ticker_deferred_def ticker_view_def view_def Let_def)
        qed
      qed
    next
      case Exited
      with j True show ?thesis
        by (auto simp: ticker_worker_def ticker_view_def view_def Let_def intro: lstep.idle)
    next
      case Crashed
      with j True show ?thesis
        by (auto simp: ticker_worker_def ticker_view_def view_def Let_def intro: lstep.idle)
    qed
  qed
qed

lemma ticker_read_view:
  "tstep i (ticker_view i s) (ticker_view i (ticker_read j s))"
proof (cases "length (t_runs s) \<le> j")
  case True
  then show ?thesis by (simp add: ticker_read_def lstep.idle)
next
  case False
  then have j: "j < length (t_runs s)" by simp
  show ?thesis
  proof (cases "pc (t_runs s ! j)")
    case (Sending v)
    show ?thesis
    proof (cases "i = j")
      case True
      with Sending j show ?thesis
        using lstep.send [of "t_runs s ! j" v "{Call_close_ht_ch, Call_Close}"
            "[Call_Stop, Call_close_ch]" j "t_done s" "t_hist s" "Ok (t_ctx s) v"]
        by (auto simp: ticker_read_def ticker_view_def view_def Let_def)
    next
      case False
      with Sending j show ?thesis
        by (auto simp: ticker_read_def ticker_view_def view_def Let_def intro: lstep.idle lstep.other)
    qed
  qed (use j in \<open>auto simp: ticker_read_def ticker_view_def view_def Let_def intro: lstep.idle\<close>)
qed

lemma ticker_step_view:
  "tstep i (ticker_view i s) (ticker_view i (ticker_step s a))"
proof (cases a)
  case Cancel
  then show ?thesis
    by (auto simp: ticker_step_def ticker_view_def view_def intro: lstep.idle lstep.cancel)
next
  case (Tick tm)
  then show ?thesis
    by (auto simp: ticker_step_def ticker_view_def view_def intro: lstep.idle)
next
  case Invoke
  then show ?thesis
    by (auto simp: ticker_step_def ticker_view_def view_def Ticker_Stage_def nth_append
        intro: lstep.idle lstep.invoke)
next
  case (Step j)
  then show ?thesis by (simp add: ticker_step_def ticker_worker_view)
next
  case (Read j)
  then show ?thesis by (simp add: ticker_step_def ticker_read_view)
qed (simp_all add: ticker_step_def lstep.idle)

lemma after_cancel_simps [simp]:
  "after_cancel i (CancelFired # h) = 0"
  "after_cancel i (Emitted j # h) = (if i = j then Suc (after_cancel i h) else after_cancel i h)"
  "after_cancel i (ClosedOut j # h) = after_cancel i h"
  "after_cancel i (Released j # h) = after_cancel i h"
  "after_cancel i (ClosedIn j # h) = after_cancel i h"
  by (auto simp: after_cancel_def)

lemma after_cancel_none: "Emitted i \<notin> set h \<Longrightarrow> after_cancel i h = 0"
  by (induction h) (auto simp: after_cancel_def)

lemma pending_le [simp]: "pending p \<le> Suc 0"
  by (cases p) auto

lemma cancel_ok_lstep: "lstep junk ds i x y \<Longrightarrow> cancel_ok i x \<Longrightarrow> cancel_ok i y"
proof (induction rule: lstep.induct)
  case (cancel h ro)
  then show ?case by (cases ro) auto
next
  case (other e d h ro)
  then show ?case by (cases ro; cases e) simp_all
next
  case (invoke d h)
  then show ?case by (auto simp: spawn_def after_cancel_none)
qed auto

lemma times_closed_simps [simp]:
  "times_closed i [] = 0"
  "times_closed i (CancelFired # h) = times_closed i h"
  "times_closed i (Emitted j # h) = times_closed i h"
  "times_closed i (ClosedOut j # h) = (if i = j then Suc (times_closed i h) else times_closed i h)"
  "times_closed i (Released j # h) = times_closed i h"
  "times_closed i (ClosedIn j # h) = times_closed i h"
  by (auto simp: times_closed_def)

lemma times_closed_0: "times_closed i h = 0 \<longleftrightarrow> ClosedOut i \<notin> set h"
  by (induction h) (auto simp: times_closed_def)

lemma closed_before_release_simps [simp]:
  "closed_before_release i (CancelFired # h) = closed_before_release i h"
  "closed_before_release i (Emitted j # h) = closed_before_release i h"
  "closed_before_release i (ClosedOut j # h) = closed_before_release i h"
  "closed_before_release i (ClosedIn j # h) = closed_before_release i h"
  "closed_before_release i (Released j # h) =
     (if i = j then ClosedOut i \<in> set h else closed_before_release i h)"
  by (auto simp: closed_before_release_def)

lemma close_ok_tstep:
  "tstep i x y \<Longrightarrow> ticker_close_ok i x \<Longrightarrow> ticker_close_ok i y"
proof (induction rule: lstep.induct)
  case (cancel h ro)
  then show ?case by (cases ro) simp_all
next
  case (other e d h ro)
  then show ?case by (cases ro; cases e) simp_all
next
  case (invoke d h)
  then show ?case by (simp add: spawn_def)
qed auto

lemma ticker_exec_snoc: "ticker_exec (as @ [a]) s = ticker_step (ticker_exec as s) a"
  by (simp add: ticker_exec_def)

lemma ticker_exec_Cons: "ticker_exec (a # as) s = ticker_exec as (ticker_step s a)"
  by (simp add: ticker_exec_def)

lemma ticker_reach_cancel_ok: "cancel_ok i (ticker_view i (ticker_exec as (ticker_init t ctx)))"
proof (induction as rule: rev_induct)
  case Nil
  show ?case by (simp add: ticker_exec_def ticker_init_def ticker_view_def view_def)
next
  case (snoc a as)
  show ?case
    using cancel_ok_lstep [OF ticker_step_view snoc] by (simp add: ticker_exec_snoc)
qed

lemma ticker_reach_close_ok: "ticker_close_ok i (ticker_view i (ticker_exec as (ticker_init t ctx)))"
proof (induction as rule: rev_induct)
  case Nil
  show ?case by (simp add: ticker_exec_def ticker_init_def ticker_view_def view_def)
next
  case (snoc a as)
  show ?case
    using close_ok_tstep [OF ticker_step_view snoc] by (simp add: ticker_exec_snoc)
qed

lemma cancel_ok_bound: "cancel_ok i (d, h, ro) \<Longrightarrow> emitted_after_cancel i h \<le> 1"
proof (cases ro)
  case None
  assume "cancel_ok i (d, h, ro)"
  with None have "after_cancel i h = 0"
    by (simp add: after_cancel_none)
  then show ?thesis
    by (simp add: emitted_after_cancel_def after_cancel_def)
next
  case (Some r)
  assume "cancel_ok i (d, h, ro)"
  with Some show ?thesis
    by (auto simp: emitted_after_cancel_def after_cancel_def)
qed

lemma ticker_emitted_after_cancel:
  "emitted_after_cancel i (t_hist (ticker_exec as (ticker_init t ctx))) \<le> 1"
  using ticker_reach_cancel_ok [of i as t ctx] cancel_ok_bound
  unfolding ticker_view_def view_def by blast

lemma ticker_close_ok_facts:
  assumes "ticker_close_ok i (view i d h rs)"
  shows "times_closed i h \<le> 1"
    and "Released i \<in> set h \<Longrightarrow> closed_before_release i h"
    and "i < length rs \<Longrightarrow> pc (rs ! i) = Exited \<Longrightarrow> times_closed i h = 1 \<and> Released i \<in> set h"
    and "i < length rs \<Longrightarrow> out_closed (rs ! i) = (ClosedOut i \<in> set h)"
  using assms by (auto simp: view_def split: if_splits)

subsection \<open>The HTTP worker seen one run at a time\<close>

lemma http_worker_view:
  "hstep i (http_view i s) (http_view i (http_worker j s))"
proof (cases "length (h_runs s) \<le> j")
  case True
  then show ?thesis by (simp add: http_worker_def lstep.idle)
next
  case False
  then have j: "j < length (h_runs s)" by simp
  show ?thesis
  proof (cases "i = j")
    case False
    show ?thesis
    proof (cases "pc (h_runs s ! j)")
      case Returning
      show ?thesis
      proof (cases "defers (h_runs s ! j)")
        case Nil
        with Returning j \<open>i \<noteq> j\<close> show ?thesis
          by (auto simp: http_worker_def http_view_def view_def Let_def intro: lstep.idle)
      next
        case (Cons c st)
        with Returning j \<open>i \<noteq> j\<close> show ?thesis
          by (cases c)
            (auto simp: http_worker_def http_deferred_def http_view_def view_def Let_def
              intro: lstep.idle lstep.other)
      qed
    qed (use j \<open>i \<noteq> j\<close> in \<open>auto simp: http_worker_def http_view_def view_def Let_def
          intro: lstep.idle\<close>)
  next
    case True
    show ?thesis
    proof (cases "pc (h_runs s ! j)")
      case AtSelect
      with j True show ?thesis
        by (cases "h_done s")
          (auto simp: http_worker_def http_view_def view_def Let_def
            intro: lstep.poll_done lstep.poll_go)
    next
      case Receiving
      with j True show ?thesis
        by (auto simp: http_worker_def http_view_def view_def Let_def
            intro: lstep.idle lstep.recv)
    next
      case (Sending v)
      with j True show ?thesis
        by (auto simp: http_worker_def http_view_def view_def Let_def intro: lstep.idle)
    next
      case Returning
      show ?thesis
      proof (cases "defers (h_runs s ! j)")
        case Nil
        with Returning j True show ?thesis
          using lstep.leave [of "h_runs s ! j" "{Call_Stop}"
              "[Call_Close, Call_close_ch, Call_close_ht_ch]" j "h_done s" "h_hist s"]
          by (auto simp: http_worker_def http_view_def view_def Let_def)
      next
        case (Cons c st)
        show ?thesis
        proof (cases c)
          case Call_Stop
          with Cons Returning j True show ?thesis
            using lstep.skip [of "h_runs s ! j" c st "{Call_Stop}"
                "[Call_Close, Call_close_ch, Call_close_ht_ch]" j "h_done s" "h_hist s"]
            by (auto simp: http_worker_def http_deferred_def http_view_def view_def Let_def)
        next
          case Call_close_ch
          with Cons Returning j True show ?thesis
            using lstep.close_out [of "h_runs s ! j" st "{Call_Stop}"
                "[Call_Close, Call_close_ch, Call_close_ht_ch]" j "h_done s" "h_hist s"]
              lstep.close_again [of "h_runs s ! j" c st "{Call_Stop}"
                "[Call_Close, Call_close_ch, Call_close_ht_ch]" j "h_done s" "h_hist s"]
            by (auto simp: http_worker_def http_deferred_def http_view_def view_def Let_def)
        next
          case Call_close_ht_ch
          with Cons Returning j True show ?thesis
            using lstep.close_in [of "h_runs s ! j" st "{Call_Stop}"
                "[Call_Close, Call_close_ch, Call_close_ht_ch]" j "h_done s" "h_hist s"]
              lstep.close_again [of "h_runs s ! j" c st "{Call_Stop}"
                "[Call_Close, Call_close_ch, Call_close_ht_ch]" j "h_done s" "h_hist s"]
            by (auto simp: http_worker_def http_deferred_def http_view_def view_def Let_def)
        next
          case Call_Close
          with Cons Returning j True show ?thesis
            using lstep.release [of "h_runs s ! j" c st "{Call_Stop}"
                "[Call_Close, Call_close_ch, Call_close_ht_ch]" j "h_done s" "h_hist s"]
            by (auto simp: http_worker_def http_deferred_def http_view_def view_def Let_def)
        qed
      qed
    next
      case Exited
      with j True show ?thesis
        by (auto simp: http_worker_def http_view_def view_def Let_def intro: lstep.idle)
    next
      case Crashed
      with j True show ?thesis
        by (auto simp: http_worker_def http_view_def view_def Let_def intro: lstep.idle)
    qed
  qed
qed

lemma http_read_view:
  "hstep i (http_view i s) (http_view i (http_read j s))"
proof (cases "length (h_runs s) \<le> j")
  case True
  then show ?thesis by (simp add: http_read_def lstep.idle)
next
  case False
  then have j: "j < length (h_runs s)" by simp
  show ?thesis
  proof (cases "pc (h_runs s ! j)")
    case (Sending v)
    show ?thesis
    proof (cases "i = j")
      case True
      with Sending j show ?thesis
        using lstep.send [of "h_runs s ! j" v "{Call_Stop}"
            "[Call_Close, Call_close_ch, Call_close_ht_ch]" j "h_done s" "h_hist s" "Ok (h_ctx s) v"]
        by (auto simp: http_read_def http_view_def view_def Let_def)
    next
      case False
      with Sending j show ?thesis
        by (auto simp: http_read_def http_view_def view_def Let_def intro: lstep.idle lstep.other)
    qed
  qed (use j in \<open>auto simp: http_read_def http_view_def view_def Let_def intro: lstep.idle\<close>)
qed

lemma http_accept_view:
  "hstep i (http_view i s) (http_view i (http_accept j h s))"
proof (cases "i = j")
  case True
  then show ?thesis
    by (auto simp: http_accept_def http_view_def view_def Let_def intro: lstep.idle lstep.recv)
next
  case False
  then show ?thesis
    by (auto simp: http_accept_def http_view_def view_def Let_def intro: lstep.idle)
qed

lemma handler_move_view:
  "hstep i (http_view i s) (http_view i (handler_move h s))"
  by (auto simp: handler_move_def http_view_def view_def Let_def split: hpc.splits intro: lstep.idle)

lemma Done_view:
  "hstep i (http_view i s) (http_view i (snd (HttpContext_Done w s)))"
  by (auto simp: HttpContext_Done_def http_view_def view_def Let_def split: option.splits
      intro: lstep.idle)

lemma http_step_view:
  "hstep i (http_view i s) (http_view i (http_step s a))"
proof (cases "crashed s")
  case True
  then show ?thesis by (simp add: http_step_def lstep.idle)
next
  case False
  show ?thesis
  proof (cases a)
    case Cancel
    with False show ?thesis
      by (auto simp: http_step_def http_view_def view_def intro: lstep.idle lstep.cancel)
  next
    case (Tick tm)
    with False show ?thesis
      by (auto simp: http_step_def intro: lstep.idle)
  next
    case (Arrive r)
    with False show ?thesis
      by (auto simp: http_step_def Handler_ServeHTTP_def http_view_def view_def intro: lstep.idle)
  next
    case Invoke
    with False show ?thesis
      by (auto simp: http_step_def http_view_def view_def Http_Stage_def nth_append
          intro: lstep.idle lstep.invoke)
  next
    case (Step j)
    with False show ?thesis by (simp add: http_step_def http_worker_view)
  next
    case (Read j)
    with False show ?thesis by (simp add: http_step_def http_read_view)
  next
    case (Accept j h)
    with False show ?thesis by (simp add: http_step_def http_accept_view)
  next
    case (HStep h)
    with False show ?thesis by (simp add: http_step_def handler_move_view)
  next
    case (CallDone w)
    with False show ?thesis by (simp add: http_step_def Done_view)
  qed
qed

lemma close_ok_hstep:
  "hstep i x y \<Longrightarrow> http_close_ok i x \<Longrightarrow> http_close_ok i y"
proof (induction rule: lstep.induct)
  case (cancel h ro)
  then show ?case by (cases ro) simp_all
next
  case (other e d h ro)
  then show ?case by (cases ro; cases e) simp_all
next
  case (invoke d h)
  then show ?case by (simp add: spawn_def)
qed auto

lemma http_exec_snoc: "http_exec (as @ [a]) s = http_step (http_exec as s) a"
  by (simp add: http_exec_def)

lemma http_exec_Cons: "http_exec (a # as) s = http_exec as (http_step s a)"
  by (simp add: http_exec_def)

lemma http_reach_cancel_ok: "cancel_ok i (http_view i (http_exec as (http_init ctx)))"
proof (induction as rule: rev_induct)
  case Nil
  show ?case by (simp add: http_exec_def http_init_def http_view_def view_def)
next
  case (snoc a as)
  show ?case
    using cancel_ok_lstep [OF http_step_view snoc] by (simp add: http_exec_snoc)
qed

lemma http_reach_close_ok: "http_close_ok i (http_view i (http_exec as (http_init ctx)))"
proof (induction as rule: rev_induct)
  case Nil
  show ?case by (simp add: http_exec_def http_init_def http_view_def view_def)
next
  case (snoc a as)
  show ?case
    using close_ok_hstep [OF http_step_view snoc] by (simp add: http_exec_snoc)
qed

lemma http_emitted_after_cancel:
  "emitted_after_cancel i (h_hist (http_exec as (http_init ctx))) \<le> 1"
  using http_reach_cancel_ok [of i as ctx] cancel_ok_bound
  unfolding http_view_def view_def by blast

lemma http_close_ok_facts:
  assumes "http_close_ok i (view i d h rs)"
  shows "times_closed i h \<le> 1"
    and "Released i \<in> set h \<Longrightarrow> closed_before_release i h"
    and "i < length rs \<Longrightarrow> pc (rs ! i) = Exited \<or> pc (rs ! i) = Crashed \<Longrightarrow>
          times_closed i h = 1 \<and> Released i \<in> set h"
    and "i < length rs \<Longrightarrow> out_closed (rs ! i) = (ClosedOut i \<in> set h)"
  using assms by (auto simp: view_def split: if_splits)

subsection \<open>Cancellation and the deferred calls\<close>

lemma quiet_tstep:
  "tstep i x y \<Longrightarrow> quiet x \<Longrightarrow> ticker_close_ok i x \<Longrightarrow> quiet y \<and> togo_view y \<le> togo_view x"
proof (induction rule: lstep.induct)
  case (cancel h ro)
  then show ?case by (cases ro) simp_all
next
  case (other e d h ro)
  then show ?case by (cases ro; cases e) simp_all
qed (auto simp: togo_def)

lemma quiet_hstep:
  "hstep i x y \<Longrightarrow> quiet x \<Longrightarrow> http_close_ok i x \<Longrightarrow> quiet y \<and> togo_view y \<le> togo_view x"
proof (induction rule: lstep.induct)
  case (cancel h ro)
  then show ?case by (cases ro) simp_all
next
  case (other e d h ro)
  then show ?case by (cases ro; cases e) simp_all
qed (auto simp: togo_def)

lemma ticker_worker_moves:
  assumes "quiet (ticker_view i s)" and "ticker_close_ok i (ticker_view i s)"
    and "0 < togo_view (ticker_view i s)"
  shows "togo_view (ticker_view i (ticker_worker i s)) < togo_view (ticker_view i s)"
proof -
  from assms(1) have i: "i < length (t_runs s)"
    by (auto simp: ticker_view_def view_def split: if_splits)
  show ?thesis
  proof (cases "pc (t_runs s ! i) = AtSelect")
    case True
    with assms i show ?thesis
      by (auto simp: ticker_view_def view_def ticker_worker_def togo_def Let_def)
  next
    case False
    with assms i have "pc (t_runs s ! i) = Returning"
      and "defers (t_runs s ! i) = [Call_close_ch, Call_Stop]" and "\<not> out_closed (t_runs s ! i)"
      by (auto simp: ticker_view_def view_def togo_def split: if_splits)
    with i show ?thesis
      by (simp add: ticker_view_def view_def ticker_worker_def ticker_deferred_def togo_def Let_def)
  qed
qed

lemma http_worker_moves:
  assumes "quiet (http_view i s)" and "http_close_ok i (http_view i s)"
    and "0 < togo_view (http_view i s)"
  shows "togo_view (http_view i (http_worker i s)) < togo_view (http_view i s)"
proof -
  from assms(1) have i: "i < length (h_runs s)"
    by (auto simp: http_view_def view_def split: if_splits)
  show ?thesis
  proof (cases "pc (h_runs s ! i) = AtSelect")
    case True
    with assms i show ?thesis
      by (auto simp: http_view_def view_def http_worker_def togo_def Let_def)
  next
    case False
    with assms i have ret: "pc (h_runs s ! i) = Returning" and op: "\<not> out_closed (h_runs s ! i)"
      and stack: "defers (h_runs s ! i) = [Call_close_ht_ch, Call_close_ch, Call_Close]
        \<or> defers (h_runs s ! i) = [Call_close_ch, Call_Close]"
      by (auto simp: http_view_def view_def togo_def split: if_splits)
    from stack show ?thesis
    proof
      assume "defers (h_runs s ! i) = [Call_close_ht_ch, Call_close_ch, Call_Close]"
      with i ret op show ?thesis
        by (simp add: http_view_def view_def http_worker_def http_deferred_def togo_def Let_def)
    next
      assume "defers (h_runs s ! i) = [Call_close_ch, Call_Close]"
      with i ret op show ?thesis
        by (simp add: http_view_def view_def http_worker_def http_deferred_def togo_def Let_def)
    qed
  qed
qed

lemma ticker_wind_down_step:
  assumes "quiet (ticker_view i s)" and "ticker_close_ok i (ticker_view i s)"
  shows "quiet (ticker_view i (ticker_step s a))
    \<and> ticker_close_ok i (ticker_view i (ticker_step s a))
    \<and> togo_view (ticker_view i (ticker_step s a))
        \<le> togo_view (ticker_view i s) - (if a = Step i then 1 else 0)"
proof -
  have q: "quiet (ticker_view i (ticker_step s a))
      \<and> togo_view (ticker_view i (ticker_step s a)) \<le> togo_view (ticker_view i s)"
    using quiet_tstep [OF ticker_step_view assms] .
  have c: "ticker_close_ok i (ticker_view i (ticker_step s a))"
    using close_ok_tstep [OF ticker_step_view assms(2)] .
  show ?thesis
  proof (cases "a = Step i \<and> 0 < togo_view (ticker_view i s)")
    case True
    with ticker_worker_moves [OF assms] q c show ?thesis
      by (simp add: ticker_step_def)
  next
    case False
    with q c show ?thesis by auto
  qed
qed

lemma ticker_wind_down:
  assumes "quiet (ticker_view i s)" and "ticker_close_ok i (ticker_view i s)"
  shows "quiet (ticker_view i (ticker_exec as s))
    \<and> ticker_close_ok i (ticker_view i (ticker_exec as s))
    \<and> togo_view (ticker_view i (ticker_exec as s))
        \<le> togo_view (ticker_view i s) - count_list as (Step i)"
  using assms
proof (induction as arbitrary: s)
  case Nil
  then show ?case by (simp add: ticker_exec_def)
next
  case (Cons a as)
  note st = ticker_wind_down_step [OF Cons.prems, of a]
  from st have "quiet (ticker_view i (ticker_step s a))"
    and "ticker_close_ok i (ticker_view i (ticker_step s a))"
    by simp_all
  from Cons.IH [OF this] st show ?case
    by (auto simp: ticker_exec_Cons)
qed

lemma crashed_stays: "crashed s \<Longrightarrow> http_exec as s = s"
  by (induction as) (simp_all add: http_exec_def http_step_def)

lemma http_wind_down_step:
  assumes "quiet (http_view i s)" and "http_close_ok i (http_view i s)" and "\<not> crashed s"
  shows "quiet (http_view i (http_step s a))
    \<and> http_close_ok i (http_view i (http_step s a))
    \<and> togo_view (http_view i (http_step s a))
        \<le> togo_view (http_view i s) - (if a = Step i then 1 else 0)"
proof -
  have q: "quiet (http_view i (http_step s a))
      \<and> togo_view (http_view i (http_step s a)) \<le> togo_view (http_view i s)"
    using quiet_hstep [OF http_step_view assms(1,2)] .
  have c: "http_close_ok i (http_view i (http_step s a))"
    using close_ok_hstep [OF http_step_view assms(2)] .
  show ?thesis
  proof (cases "a = Step i \<and> 0 < togo_view (http_view i s)")
    case True
    with http_worker_moves [OF assms(1,2)] q c assms(3) show ?thesis
      by (simp add: http_step_def)
  next
    case False
    with q c show ?thesis by auto
  qed
qed

lemma http_wind_down:
  assumes "quiet (http_view i s)" and "http_close_ok i (http_view i s)"
    and "\<not> crashed (http_exec as s)"
  shows "quiet (http_view i (http_exec as s))
    \<and> http_close_ok i (http_view i (http_exec as s))
    \<and> togo_view (http_view i (http_exec as s))
        \<le> togo_view (http_view i s) - count_list as (Step i)"
  using assms
proof (induction as arbitrary: s)
  case Nil
  then show ?case by (simp add: http_exec_def)
next
  case (Cons a as)
  have alive: "\<not> crashed s"
    using Cons.prems(3) crashed_stays [of s "a # as"] by auto
  note st = http_wind_down_step [OF Cons.prems(1,2) alive, of a]
  from st have "quiet (http_view i (http_step s a))"
    and "http_close_ok i (http_view i (http_step s a))"
    by simp_all
  from Cons.IH [OF this] Cons.prems(3) st show ?case
    by (auto simp: http_exec_Cons)
qed

lemma quiet_at_select:
  assumes "i < length rs" and "pc (rs ! i) = AtSelect" and "out (rs ! i) = []" and "d"
  shows "quiet (view i d h rs)"
  using assms by (simp add: view_def)

lemma togo_ticker_start:
  assumes "ticker_close_ok i (view i d h rs)" and "i < length rs" and "pc (rs ! i) = AtSelect"
  shows "togo_view (view i d h rs) = 2"
  using assms by (auto simp: view_def togo_def)

lemma togo_http_start:
  assumes "http_close_ok i (view i d h rs)" and "i < length rs" and "pc (rs ! i) = AtSelect"
  shows "togo_view (view i d h rs) = 3"
  using assms by (auto simp: view_def togo_def)

lemma quiet_view_facts:
  assumes "quiet (view i d h rs)"
  shows "i < length rs" and "out (rs ! i) = []"
    and "togo_view (view i d h rs) = 0 \<Longrightarrow> pc (rs ! i) \<noteq> AtSelect \<Longrightarrow> out_closed (rs ! i)"
  using assms by (auto simp: view_def togo_def split: if_splits)

lemma RunFlow_nothing:
  assumes "out r = []"
  shows "calls (RunFlow (stage_of r) \<lparr>OnSuccess = onS, OnError = onE, Pipeline = pipeline fns\<rparr> w u) = []"
    and "user (RunFlow (stage_of r) \<lparr>OnSuccess = onS, OnError = onE, Pipeline = pipeline fns\<rparr> w u) = u"
    and "returned (RunFlow (stage_of r) \<lparr>OnSuccess = onS, OnError = onE, Pipeline = pipeline fns\<rparr> w u)
          = out_closed r"
  using assms
  by (simp_all add: RunFlow_calls RunFlow_user RunFlow_returned pipeline_sent pipeline_is_closed
      stage_of_def chan_of_def)

text \<open>
  Claim C5, as amended. When the context is cancelled before the worker of a production
  run makes its first check of the signal (for instance before the factory is called),
  the run never emits an outcome; its channel is closed once the worker has made two
  moves (the ticker) or three (the HTTP trigger, in a program that has not crashed);
  and a driver reading the channel calls neither handler and has returned as soon as
  the channel is closed.
\<close>

theorem cancelled_before_first_check:
  assumes "s = ticker_exec pre (ticker_init t ctx)"
    and "i < length (t_runs s)" and "pc (t_runs s ! i) = AtSelect"
    and "out (t_runs s ! i) = []" and "t_done s"
    and "r = t_runs (ticker_exec as s) ! i"
    and "s' = http_exec pre' (http_init ctx')"
    and "j < length (h_runs s')" and "pc (h_runs s' ! j) = AtSelect"
    and "out (h_runs s' ! j) = []" and "h_done s'"
    and "\<not> crashed (http_exec as' s')"
    and "r' = h_runs (http_exec as' s') ! j"
  shows "out r = [] \<and> (2 \<le> count_list as (Step i) \<longrightarrow> out_closed r)
    \<and> calls (RunFlow (stage_of r) \<lparr>OnSuccess = onS, OnError = onE, Pipeline = pipeline fns\<rparr> w u) = []
    \<and> returned (RunFlow (stage_of r) \<lparr>OnSuccess = onS, OnError = onE, Pipeline = pipeline fns\<rparr> w u)
        = out_closed r
    \<and> out r' = [] \<and> (3 \<le> count_list as' (Step j) \<longrightarrow> out_closed r')
    \<and> calls (RunFlow (stage_of r') \<lparr>OnSuccess = onS', OnError = onE', Pipeline = pipeline fns'\<rparr> w u') = []
    \<and> returned (RunFlow (stage_of r') \<lparr>OnSuccess = onS', OnError = onE', Pipeline = pipeline fns'\<rparr> w u')
        = out_closed r'"
proof -
  have inv: "ticker_close_ok i (ticker_view i s)"
    using ticker_reach_close_ok [of i pre t ctx] assms(1) by simp
  have q: "quiet (ticker_view i s)"
    unfolding ticker_view_def using assms(2-5) by (rule quiet_at_select)
  have start: "togo_view (ticker_view i s) = 2"
    using inv assms(2,3) unfolding ticker_view_def by (rule togo_ticker_start)
  note down = ticker_wind_down [OF q inv, of as]
  from down have q': "quiet (view i (t_done (ticker_exec as s)) (t_hist (ticker_exec as s))
      (t_runs (ticker_exec as s)))"
    by (simp add: ticker_view_def)
  have silent: "out r = []"
    using quiet_view_facts(2) [OF q'] assms(6) by simp
  have closes: "out_closed r" if "2 \<le> count_list as (Step i)"
  proof -
    from down start that have z: "togo_view (ticker_view i (ticker_exec as s)) = 0"
      by simp
    have "ticker_close_ok i (ticker_view i (ticker_exec as s))"
      using down by simp
    with z q' assms(6) show ?thesis
      by (auto simp: ticker_view_def view_def togo_def split: if_splits)
  qed
  have inv': "http_close_ok j (http_view j s')"
    using http_reach_close_ok [of j pre' ctx'] assms(7) by simp
  have p: "quiet (http_view j s')"
    unfolding http_view_def using assms(8-11) by (rule quiet_at_select)
  have start': "togo_view (http_view j s') = 3"
    using inv' assms(8,9) unfolding http_view_def by (rule togo_http_start)
  note down' = http_wind_down [OF p inv' assms(12)]
  from down' have p': "quiet (view j (h_done (http_exec as' s')) (h_hist (http_exec as' s'))
      (h_runs (http_exec as' s')))"
    by (simp add: http_view_def)
  have silent': "out r' = []"
    using quiet_view_facts(2) [OF p'] assms(13) by simp
  have closes': "out_closed r'" if "3 \<le> count_list as' (Step j)"
  proof -
    from down' start' that have z: "togo_view (http_view j (http_exec as' s')) = 0"
      by simp
    have "http_close_ok j (http_view j (http_exec as' s'))"
      using down' by simp
    with z p' assms(13) show ?thesis
      by (auto simp: http_view_def view_def togo_def split: if_splits)
  qed
  show ?thesis
    using silent closes silent' closes'
      RunFlow_nothing [OF silent, of onS onE fns w u]
      RunFlow_nothing [OF silent', of onS' onE' fns' w u']
    by simp
qed

theorem cancelled_before_first_check_witness:
  "t_done (ticker_exec [Cancel, Invoke] (ticker_init second_ticker 7))
   \<and> pc (t_runs (ticker_exec [Cancel, Invoke] (ticker_init second_ticker 7)) ! 0) = AtSelect
   \<and> 2 \<le> count_list [Step 0, Tick 3, Step 0] (Step 0)
   \<and> out (t_runs (ticker_exec [Step 0, Tick 3, Step 0]
         (ticker_exec [Cancel, Invoke] (ticker_init second_ticker 7))) ! 0) = []
   \<and> out_closed (t_runs (ticker_exec [Step 0, Tick 3, Step 0]
         (ticker_exec [Cancel, Invoke] (ticker_init second_ticker 7))) ! 0)
   \<and> calls (RunFlow (stage_of (t_runs (ticker_exec [Step 0, Tick 3, Step 0]
         (ticker_exec [Cancel, Invoke] (ticker_init second_ticker 7))) ! 0))
       \<lparr>OnSuccess = (\<lambda>ctx v n. (None, Suc n)), OnError = (\<lambda>ctx e n. Suc n),
        Pipeline = pipeline [\<lambda>ctx tm. (tm, None)]\<rparr> 0 (0::nat)) = []
   \<and> returned (RunFlow (stage_of (t_runs (ticker_exec [Step 0, Tick 3, Step 0]
         (ticker_exec [Cancel, Invoke] (ticker_init second_ticker 7))) ! 0))
       \<lparr>OnSuccess = (\<lambda>ctx v n. (None, Suc n)), OnError = (\<lambda>ctx e n. Suc n),
        Pipeline = pipeline [\<lambda>ctx tm. (tm, None)]\<rparr> 0 (0::nat))
   \<and> h_done (http_exec [Cancel, Invoke] (http_init 7))
   \<and> pc (h_runs (http_exec [Cancel, Invoke] (http_init 7)) ! 0) = AtSelect
   \<and> 3 \<le> count_list [Step 0, Arrive 1, Step 0, Step 0] (Step 0)
   \<and> out (h_runs (http_exec [Step 0, Arrive 1, Step 0, Step 0]
         (http_exec [Cancel, Invoke] (http_init 7))) ! 0) = []
   \<and> out_closed (h_runs (http_exec [Step 0, Arrive 1, Step 0, Step 0]
         (http_exec [Cancel, Invoke] (http_init 7))) ! 0)
   \<and> returned (RunFlow (stage_of (h_runs (http_exec [Step 0, Arrive 1, Step 0, Step 0]
         (http_exec [Cancel, Invoke] (http_init 7))) ! 0))
       \<lparr>OnSuccess = (\<lambda>ctx v n. (None, Suc n)), OnError = (\<lambda>ctx e n. Suc n),
        Pipeline = pipeline [\<lambda>ctx x. (x, None)]\<rparr> 0 (0::nat))"
proof -
  define s where "s = ticker_exec [Cancel, Invoke] (ticker_init second_ticker 7)"
  define s' where "s' = http_exec [Cancel, Invoke] (http_init 7)"
  have t1: "0 < length (t_runs s)" and t2: "pc (t_runs s ! 0) = AtSelect"
    and t3: "out (t_runs s ! 0) = []" and t4: "t_done s"
    unfolding s_def by code_simp+
  have h1: "0 < length (h_runs s')" and h2: "pc (h_runs s' ! 0) = AtSelect"
    and h3: "out (h_runs s' ! 0) = []" and h4: "h_done s'"
    unfolding s'_def by code_simp+
  have h5: "\<not> crashed (http_exec [Step 0, Arrive 1, Step 0, Step 0] s')"
    unfolding s'_def by code_simp
  have n: "2 \<le> count_list [Step 0, Tick 3, Step 0] (Step 0)"
    and n': "3 \<le> count_list [Step 0, Arrive 1, Step 0, Step 0] (Step 0)"
    by simp_all
  note inst = cancelled_before_first_check [OF s_def t1 t2 t3 t4 refl s'_def h1 h2 h3 h4 h5 refl,
      where as = "[Step 0, Tick 3, Step 0]"
        and onS = "\<lambda>ctx v n. (None, Suc n)" and onE = "\<lambda>ctx e n. Suc n"
        and fns = "[\<lambda>ctx tm. (tm, None)]" and w = 0 and u = "0::nat"
        and onS' = "\<lambda>ctx v n. (None, Suc n)" and onE' = "\<lambda>ctx e n. Suc n"
        and fns' = "[\<lambda>ctx x. (x, None)]" and u' = "0::nat"]
  from inst n n' t2 t4 h2 h4 show ?thesis
    unfolding s_def s'_def by simp
qed

theorem cancelled_before_any_event_counterexample:
  "t_done (ticker_exec [Invoke, Step 0, Cancel] (ticker_init second_ticker 7))
   \<and> out (t_runs (ticker_exec [Invoke, Step 0, Cancel] (ticker_init second_ticker 7)) ! 0) = []
   \<and> chan_of (t_runs (ticker_exec [Invoke, Step 0, Cancel, Tick 5, Step 0, Read 0, Step 0, Step 0]
         (ticker_init second_ticker 7)) ! 0) = \<lparr>sent = [Ok 7 5], is_closed = True\<rparr>
   \<and> calls (RunFlow (stage_of (t_runs
         (ticker_exec [Invoke, Step 0, Cancel, Tick 5, Step 0, Read 0, Step 0, Step 0]
           (ticker_init second_ticker 7)) ! 0)) (counting_flow []) 0 0) = [OnSuccessCall 7 5]"
  by code_simp

lemma ticker_check_returns:
  assumes "t_done s" and "i < length (t_runs s)" and "pc (t_runs s ! i) = AtSelect"
  shows "pc (t_runs (ticker_step s (Step i)) ! i) = Returning
    \<and> t_hist (ticker_step s (Step i)) = t_hist s"
  using assms by (simp add: ticker_step_def ticker_worker_def Let_def)

lemma http_check_returns:
  assumes "h_done s" and "\<not> crashed s" and "i < length (h_runs s)" and "pc (h_runs s ! i) = AtSelect"
  shows "pc (h_runs (http_step s (Step i)) ! i) = Returning
    \<and> h_hist (http_step s (Step i)) = h_hist s"
  using assms by (simp add: http_step_def http_worker_def Let_def)

text \<open>
  Claim C6, as amended. The worker of a trigger looks at the cancellation signal at the
  \<^verbatim>\<open>select\<close> that starts each iteration: a worker that finds the signal fired there
  returns without emitting. After the signal has fired a run emits at most one further
  outcome, the one of the iteration it was in.
\<close>

theorem at_most_one_outcome_after_cancel:
  "emitted_after_cancel i (t_hist (ticker_exec as (ticker_init t ctx))) \<le> 1
   \<and> emitted_after_cancel i (h_hist (http_exec as' (http_init ctx'))) \<le> 1
   \<and> (t_done s \<and> j < length (t_runs s) \<and> pc (t_runs s ! j) = AtSelect \<longrightarrow>
        pc (t_runs (ticker_step s (Step j)) ! j) = Returning
        \<and> t_hist (ticker_step s (Step j)) = t_hist s)
   \<and> (h_done s' \<and> \<not> crashed s' \<and> j < length (h_runs s') \<and> pc (h_runs s' ! j) = AtSelect \<longrightarrow>
        pc (h_runs (http_step s' (Step j)) ! j) = Returning
        \<and> h_hist (http_step s' (Step j)) = h_hist s')"
  using ticker_emitted_after_cancel [of i as t ctx] http_emitted_after_cancel [of i as' ctx']
    ticker_check_returns [of s j] http_check_returns [of s' j]
  by blast

theorem at_most_one_outcome_after_cancel_witness:
  "emitted_after_cancel 0 (t_hist (ticker_exec [Invoke, Step 0, Tick 1, Step 0, Read 0, Cancel, Tick 2]
       (ticker_init second_ticker 7))) = 0
   \<and> emitted_after_cancel 0 (h_hist (http_exec [Invoke, Step 0, Arrive 1, Accept 0 0, Read 0, Cancel]
       (http_init 7))) = 0
   \<and> t_done (ticker_exec [Invoke, Step 0, Tick 1, Step 0, Read 0, Cancel, Tick 2]
       (ticker_init second_ticker 7))
   \<and> pc (t_runs (ticker_exec [Invoke, Step 0, Tick 1, Step 0, Read 0, Cancel, Tick 2]
       (ticker_init second_ticker 7)) ! 0) = AtSelect
   \<and> pc (t_runs (ticker_step (ticker_exec [Invoke, Step 0, Tick 1, Step 0, Read 0, Cancel, Tick 2]
       (ticker_init second_ticker 7)) (Step 0)) ! 0) = Returning
   \<and> h_done (http_exec [Invoke, Step 0, Arrive 1, Accept 0 0, Read 0, Cancel] (http_init 7))
   \<and> pc (h_runs (http_exec [Invoke, Step 0, Arrive 1, Accept 0 0, Read 0, Cancel] (http_init 7)) ! 0)
       = AtSelect
   \<and> pc (h_runs (http_step (http_exec [Invoke, Step 0, Arrive 1, Accept 0 0, Read 0, Cancel]
       (http_init 7)) (Step 0)) ! 0) = Returning"
proof -
  define s where "s = ticker_exec [Invoke, Step 0, Tick 1, Step 0, Read 0, Cancel, Tick 2]
       (ticker_init second_ticker 7)"
  define s' where "s' = http_exec [Invoke, Step 0, Arrive 1, Accept 0 0, Read 0, Cancel] (http_init 7)"
  have t: "t_done s \<and> 0 < length (t_runs s) \<and> pc (t_runs s ! 0) = AtSelect"
    unfolding s_def by code_simp
  have h: "h_done s' \<and> \<not> crashed s' \<and> 0 < length (h_runs s') \<and> pc (h_runs s' ! 0) = AtSelect"
    unfolding s'_def by code_simp
  have e: "emitted_after_cancel 0 (t_hist s) = 0" and e': "emitted_after_cancel 0 (h_hist s') = 0"
    unfolding s_def s'_def by code_simp+
  note inst = at_most_one_outcome_after_cancel [where s = s and s' = s' and j = 0]
  from inst t h e e' show ?thesis
    unfolding s_def s'_def by blast
qed

theorem outcome_after_cancel_counterexample:
  "rev (t_hist (ticker_exec [Invoke, Step 0, Cancel, Tick 5, Step 0, Read 0]
       (ticker_init second_ticker 7))) = [CancelFired, Emitted 0]
   \<and> emitted_after_cancel 0 (t_hist (ticker_exec [Invoke, Step 0, Cancel, Tick 5, Step 0, Read 0]
       (ticker_init second_ticker 7))) = 1
   \<and> rev (h_hist (http_exec [Invoke, Step 0, Cancel, Arrive 3, Accept 0 0, Read 0] (http_init 7)))
       = [CancelFired, Emitted 0]
   \<and> emitted_after_cancel 0 (h_hist (http_exec [Invoke, Step 0, Cancel, Arrive 3, Accept 0 0, Read 0]
       (http_init 7))) = 1"
  by code_simp

text \<open>
  Claim C7, as amended. In every execution a production run closes its output channel
  at most once, and once by the time its worker is gone; it releases the resource of the
  trigger (stops the timer, closes the server) after that: whenever the resource has been
  released by the run, the run had closed its channel before.
\<close>

theorem channel_closed_once_then_released:
  assumes "s = ticker_exec as (ticker_init t ctx)" and "s' = http_exec as' (http_init ctx')"
  shows "times_closed i (t_hist s) \<le> 1
    \<and> (Released i \<in> set (t_hist s) \<longrightarrow> closed_before_release i (t_hist s))
    \<and> (i < length (t_runs s) \<and> pc (t_runs s ! i) = Exited \<longrightarrow>
         times_closed i (t_hist s) = 1 \<and> Released i \<in> set (t_hist s))
    \<and> times_closed j (h_hist s') \<le> 1
    \<and> (Released j \<in> set (h_hist s') \<longrightarrow> closed_before_release j (h_hist s'))
    \<and> (j < length (h_runs s') \<and> (pc (h_runs s' ! j) = Exited \<or> pc (h_runs s' ! j) = Crashed) \<longrightarrow>
         times_closed j (h_hist s') = 1 \<and> Released j \<in> set (h_hist s'))"
proof -
  have t: "ticker_close_ok i (view i (t_done s) (t_hist s) (t_runs s))"
    using ticker_reach_close_ok [of i as t ctx] assms(1) by (simp add: ticker_view_def)
  have h: "http_close_ok j (view j (h_done s') (h_hist s') (h_runs s'))"
    using http_reach_close_ok [of j as' ctx'] assms(2) by (simp add: http_view_def)
  show ?thesis
    using ticker_close_ok_facts(1-3) [OF t] http_close_ok_facts(1-3) [OF h] by blast
qed

theorem channel_closed_once_then_released_witness:
  "rev (t_hist (ticker_exec [Invoke, Cancel, Step 0, Step 0, Step 0, Step 0] (ticker_init second_ticker 7)))
     = [CancelFired, ClosedOut 0, Released 0]
   \<and> pc (t_runs (ticker_exec [Invoke, Cancel, Step 0, Step 0, Step 0, Step 0]
        (ticker_init second_ticker 7)) ! 0) = Exited
   \<and> times_closed 0 (t_hist (ticker_exec [Invoke, Cancel, Step 0, Step 0, Step 0, Step 0]
        (ticker_init second_ticker 7))) = 1
   \<and> closed_before_release 0 (t_hist (ticker_exec [Invoke, Cancel, Step 0, Step 0, Step 0, Step 0]
        (ticker_init second_ticker 7)))
   \<and> rev (h_hist (http_exec [Invoke, Cancel, Step 0, Step 0, Step 0, Step 0, Step 0] (http_init 7)))
     = [CancelFired, ClosedIn 0, ClosedOut 0, Released 0]
   \<and> pc (h_runs (http_exec [Invoke, Cancel, Step 0, Step 0, Step 0, Step 0, Step 0] (http_init 7)) ! 0)
     = Exited
   \<and> times_closed 0 (h_hist (http_exec [Invoke, Cancel, Step 0, Step 0, Step 0, Step 0, Step 0]
        (http_init 7))) = 1
   \<and> closed_before_release 0 (h_hist (http_exec [Invoke, Cancel, Step 0, Step 0, Step 0, Step 0, Step 0]
        (http_init 7)))"
proof -
  define s where "s = ticker_exec [Invoke, Cancel, Step 0, Step 0, Step 0, Step 0]
      (ticker_init second_ticker 7)"
  define s' where "s' = http_exec [Invoke, Cancel, Step 0, Step 0, Step 0, Step 0, Step 0] (http_init 7)"
  have t: "rev (t_hist s) = [CancelFired, ClosedOut 0, Released 0]"
    and t': "0 < length (t_runs s) \<and> pc (t_runs s ! 0) = Exited"
    unfolding s_def by code_simp+
  have h: "rev (h_hist s') = [CancelFired, ClosedIn 0, ClosedOut 0, Released 0]"
    and h': "0 < length (h_runs s') \<and> (pc (h_runs s' ! 0) = Exited \<or> pc (h_runs s' ! 0) = Crashed)"
    and h'': "pc (h_runs s' ! 0) = Exited"
    unfolding s'_def by code_simp+
  note inst = channel_closed_once_then_released [OF s_def s'_def, where i = 0 and j = 0]
  from inst t' have "times_closed 0 (t_hist s) = 1" and "closed_before_release 0 (t_hist s)"
    by blast+
  moreover from inst h' have "times_closed 0 (h_hist s') = 1" and "closed_before_release 0 (h_hist s')"
    by blast+
  ultimately show ?thesis
    using t t' h h'' unfolding s_def s'_def by blast
qed

theorem closed_only_after_release_counterexample:
  "out_closed (t_runs (ticker_exec [Invoke, Cancel, Step 0, Step 0] (ticker_init second_ticker 7)) ! 0)
   \<and> \<not> stopped (t_ticker (ticker_exec [Invoke, Cancel, Step 0, Step 0] (ticker_init second_ticker 7)))
   \<and> rev (t_hist (ticker_exec [Invoke, Cancel, Step 0, Step 0, Step 0, Step 0]
        (ticker_init second_ticker 7))) = [CancelFired, ClosedOut 0, Released 0]
   \<and> \<not> released_before_close 0 (t_hist (ticker_exec [Invoke, Cancel, Step 0, Step 0, Step 0, Step 0]
        (ticker_init second_ticker 7)))
   \<and> out_closed (h_runs (http_exec [Invoke, Cancel, Step 0, Step 0, Step 0] (http_init 7)) ! 0)
   \<and> \<not> server_closed (http_exec [Invoke, Cancel, Step 0, Step 0, Step 0] (http_init 7))
   \<and> rev (h_hist (http_exec [Invoke, Cancel, Step 0, Step 0, Step 0, Step 0, Step 0] (http_init 7)))
       = [CancelFired, ClosedIn 0, ClosedOut 0, Released 0]
   \<and> \<not> released_before_close 0 (h_hist (http_exec [Invoke, Cancel, Step 0, Step 0, Step 0, Step 0, Step 0]
        (http_init 7)))"
  by code_simp

subsection \<open>Handlers, repeated calls of the factory, and NewHttp\<close>






lemma tick_taken_once:
  assumes "i \<noteq> j" and "i < length (t_runs s)" and "j < length (t_runs s)"
    and "pc (t_runs s ! i) = Receiving" and "pc (t_runs s ! j) = Receiving"
    and "C (t_ticker s) = Some tm"
  shows "pc (t_runs (ticker_step s (Step j)) ! j) = Sending tm
    \<and> ticker_step (ticker_step s (Step j)) (Step i) = ticker_step s (Step j)"
  using assms by (simp add: ticker_step_def ticker_worker_def Let_def)

lemma request_taken_once:
  assumes "i \<noteq> j" and "i < length (h_runs s)" and "j < length (h_runs s)"
    and "pc (h_runs s ! i) = Receiving" and "pc (h_runs s ! j) = Receiving"
    and "h < length (handlers s)" and "hpc (handlers s ! h) = HSend"
    and "\<not> in_closed s" and "\<not> crashed s"
  shows "pc (h_runs (http_step s (Accept j h)) ! j) = Sending (wrapper (handlers s ! h))
    \<and> http_step (http_step s (Accept j h)) (Accept i h) = http_step s (Accept j h)"
  using assms by (simp add: http_step_def http_accept_def Let_def)

text \<open>
  Claim C8, as amended. Each call of the stage factory of a trigger starts a new
  production run with a channel of its own, on which nothing has been sent and which is
  open, and leaves the runs started before as they are. The runs of one trigger are not
  independent: they receive from the one timer channel, or the one request channel, of
  the trigger, so that a tick or a request taken by one run is not there for another.
\<close>

theorem Stage_new_run_shared_source:
  "fst (Ticker_Stage s) = length (t_runs s)
   \<and> t_runs (snd (Ticker_Stage s)) = t_runs s @ [spawn [Call_Stop, Call_close_ch]]
   \<and> chan_of (t_runs (snd (Ticker_Stage s)) ! fst (Ticker_Stage s)) = \<lparr>sent = [], is_closed = False\<rparr>
   \<and> t_ticker (snd (Ticker_Stage s)) = t_ticker s
   \<and> fst (Http_Stage s') = length (h_runs s')
   \<and> h_runs (snd (Http_Stage s')) = h_runs s' @ [spawn [Call_Close, Call_close_ch, Call_close_ht_ch]]
   \<and> chan_of (h_runs (snd (Http_Stage s')) ! fst (Http_Stage s')) = \<lparr>sent = [], is_closed = False\<rparr>
   \<and> handlers (snd (Http_Stage s')) = handlers s' \<and> in_closed (snd (Http_Stage s')) = in_closed s'
   \<and> (i \<noteq> j \<and> i < length (t_runs s) \<and> j < length (t_runs s)
        \<and> pc (t_runs s ! i) = Receiving \<and> pc (t_runs s ! j) = Receiving
        \<and> C (t_ticker s) = Some tm \<longrightarrow>
      pc (t_runs (ticker_step s (Step j)) ! j) = Sending tm
      \<and> ticker_step (ticker_step s (Step j)) (Step i) = ticker_step s (Step j))
   \<and> (i \<noteq> j \<and> i < length (h_runs s') \<and> j < length (h_runs s')
        \<and> pc (h_runs s' ! i) = Receiving \<and> pc (h_runs s' ! j) = Receiving
        \<and> h < length (handlers s') \<and> hpc (handlers s' ! h) = HSend
        \<and> \<not> in_closed s' \<and> \<not> crashed s' \<longrightarrow>
      pc (h_runs (http_step s' (Accept j h)) ! j) = Sending (wrapper (handlers s' ! h))
      \<and> http_step (http_step s' (Accept j h)) (Accept i h) = http_step s' (Accept j h))"
  using tick_taken_once [of i j s tm] request_taken_once [of i j s' h]
  by (simp add: Ticker_Stage_def Http_Stage_def chan_of_def spawn_def)

theorem Stage_new_run_shared_source_witness:
  "pc (t_runs (ticker_exec [Invoke, Invoke, Step 0, Step 1, Tick 5] (ticker_init second_ticker 7)) ! 0)
     = Receiving
   \<and> pc (t_runs (ticker_exec [Invoke, Invoke, Step 0, Step 1, Tick 5] (ticker_init second_ticker 7)) ! 1)
     = Receiving
   \<and> C (t_ticker (ticker_exec [Invoke, Invoke, Step 0, Step 1, Tick 5] (ticker_init second_ticker 7)))
     = Some 5
   \<and> pc (t_runs (ticker_step
        (ticker_exec [Invoke, Invoke, Step 0, Step 1, Tick 5] (ticker_init second_ticker 7)) (Step 1)) ! 1)
     = Sending 5
   \<and> ticker_step (ticker_step
        (ticker_exec [Invoke, Invoke, Step 0, Step 1, Tick 5] (ticker_init second_ticker 7)) (Step 1)) (Step 0)
     = ticker_step
        (ticker_exec [Invoke, Invoke, Step 0, Step 1, Tick 5] (ticker_init second_ticker 7)) (Step 1)
   \<and> pc (h_runs (http_step
        (http_exec [Invoke, Invoke, Step 0, Step 1, Arrive 3] (http_init 7)) (Accept 1 0)) ! 1)
     = Sending \<lparr>Writer = 3, Request = 3, done_ch = Some 0\<rparr>
   \<and> http_step (http_step
        (http_exec [Invoke, Invoke, Step 0, Step 1, Arrive 3] (http_init 7)) (Accept 1 0)) (Accept 0 0)
     = http_step (http_exec [Invoke, Invoke, Step 0, Step 1, Arrive 3] (http_init 7)) (Accept 1 0)"
proof -
  define s where "s = ticker_exec [Invoke, Invoke, Step 0, Step 1, Tick 5] (ticker_init second_ticker 7)"
  define s' where "s' = http_exec [Invoke, Invoke, Step 0, Step 1, Arrive 3] (http_init 7)"
  have t: "(0::nat) \<noteq> 1 \<and> 0 < length (t_runs s) \<and> 1 < length (t_runs s)
      \<and> pc (t_runs s ! 0) = Receiving \<and> pc (t_runs s ! 1) = Receiving \<and> C (t_ticker s) = Some 5"
    unfolding s_def by code_simp
  have h: "(0::nat) \<noteq> 1 \<and> 0 < length (h_runs s') \<and> 1 < length (h_runs s')
      \<and> pc (h_runs s' ! 0) = Receiving \<and> pc (h_runs s' ! 1) = Receiving
      \<and> 0 < length (handlers s') \<and> hpc (handlers s' ! 0) = HSend
      \<and> \<not> in_closed s' \<and> \<not> crashed s'"
    unfolding s'_def by code_simp
  have w: "wrapper (handlers s' ! 0) = \<lparr>Writer = 3, Request = 3, done_ch = Some 0\<rparr>"
    unfolding s'_def by code_simp
  note inst = Stage_new_run_shared_source [where s = s and s' = s' and i = 0 and j = 1
      and tm = 5 and h = 0]
  from inst t h have "pc (t_runs (ticker_step s (Step 1)) ! 1) = Sending 5"
    and "ticker_step (ticker_step s (Step 1)) (Step 0) = ticker_step s (Step 1)"
    and "pc (h_runs (http_step s' (Accept 1 0)) ! 1) = Sending (wrapper (handlers s' ! 0))"
    and "http_step (http_step s' (Accept 1 0)) (Accept 0 0) = http_step s' (Accept 1 0)"
    by blast+
  with t w show ?thesis
    unfolding s_def s'_def by simp
qed

theorem Stage_runs_interfere_counterexample:
  "out (t_runs (ticker_exec [Invoke, Invoke, Step 0, Tick 5, Step 0, Read 0]
       (ticker_init second_ticker 7)) ! 0) = [Ok 7 5]
   \<and> out (t_runs (ticker_exec [Invoke, Invoke, Step 0, Step 1, Tick 5, Step 1, Step 0, Read 1, Read 0]
       (ticker_init second_ticker 7)) ! 0) = []
   \<and> \<not> crashed (http_exec [Invoke, Cancel, Step 0, Step 0, Step 0, Step 0, Step 0] (http_init 7))
   \<and> crashed (http_exec [Invoke, Invoke, Cancel, Step 0, Step 0, Step 0, Step 0, Step 0,
       Step 1, Step 1, Step 1, Step 1, Step 1] (http_init 7))
   \<and> pc (h_runs (http_exec [Invoke, Invoke, Cancel, Step 0, Step 0, Step 0, Step 0, Step 0,
       Step 1, Step 1, Step 1, Step 1, Step 1] (http_init 7)) ! 1) = Crashed"
  by code_simp




end
